theory Spec2Isabelle
  imports Complex_Main "HOL-Library.Word" "HOL-Library.Sublist"
begin

section \<open>Multi-GPU scheduler and streaming coordinator of the VibeVoice demo\<close>

text \<open>
  A shallow embedding of \<^verbatim>\<open>demo/gradio_demo_multigpu.py\<close>: the device registry
  and scheduler of class \<^verbatim>\<open>GPUManager\<close> and the streaming generator of class
  \<^verbatim>\<open>VibeVoiceDemo\<close>. A float held in a field or read from the clock is
  modelled as the real number it denotes; the arithmetic the code performs on floats
  is rounded as binary64 rounds it, with its infinities and NaN (section on Python
  floats below).
\<close>

subsection \<open>GPUStatus\<close>

record GPUStatus =
  gpu_id :: int
  device_name :: string
  memory_used :: real
  memory_total :: real
  utilization :: real
  queue_length :: int
  is_available :: bool
  last_updated :: real

definition memory_free :: "GPUStatus \<Rightarrow> real" where
  "memory_free s = memory_total s - memory_used s"

definition memory_usage_percent :: "GPUStatus \<Rightarrow> real" where
  "memory_usage_percent s =
     (if memory_total s > 0 then (memory_used s / memory_total s) * 100 else 0)"

subsection \<open>Python errors\<close>

text \<open>
  The exceptions the modelled code raises or lets escape: the RuntimeError of
  \<^verbatim>\<open>select_best_gpu\<close>, the KeyError of a dictionary lookup with a missing key
  and the IndexError of \<^verbatim>\<open>available_gpus[0]\<close> on an empty list, the OverflowError
  of converting an int that is too large to a float; \<open>OtherError\<close> stands for any
  other exception.
\<close>

datatype py_error = NoGPUAvailable | KeyError int | IndexError | OverflowError | OtherError

subsection \<open>Python floats\<close>

text \<open>
  A Python float is an IEEE 754 binary64 number: a finite value, an infinity or NaN.
  The sign of a zero is not modelled; no operation used here tells the two zeros
  apart. \<open>bit_length\<close> is \<^verbatim>\<open>int.bit_length\<close>, \<open>pow2 e\<close> is 2 to the power \<open>e\<close>, and
  \<open>exponent x\<close>, for positive \<open>x\<close>, is the integer \<open>e\<close> with
  \<open>pow2 e \<le> x < pow2 (e + 1)\<close>.
\<close>

datatype pyfloat = Finite real | PosInf | NegInf | NaN

function bit_length :: "nat \<Rightarrow> nat" where
  "bit_length n = (if n = 0 then 0 else bit_length (n div 2) + 1)"
  by pat_completeness auto
termination
  by (relation "measure (\<lambda>n. n)") auto

declare bit_length.simps [simp del]

definition pow2 :: "int \<Rightarrow> real" where
  "pow2 e = (if 0 \<le> e then 2 ^ nat e else 1 / 2 ^ nat (- e))"

definition exponent :: "real \<Rightarrow> int" where
  "exponent x =
     (if 1 \<le> x then int (bit_length (nat \<lfloor>x\<rfloor>)) - 1
      else - int (bit_length (nat (\<lceil>1 / x\<rceil> - 1))))"

definition round_half_even :: "real \<Rightarrow> int" where
  "round_half_even y =
     (let n = \<lfloor>y\<rfloor>
      in if y - of_int n < 1 / 2 then n
         else if y - of_int n > 1 / 2 then n + 1
         else if even n then n else n + 1)"

text \<open>
  The float that an exact result \<open>x\<close> is rounded to (round to nearest, ties to even):
  a significand of 53 bits, the least exponent that of the subnormal numbers, and an
  infinity when the rounded value exceeds the largest finite float.
\<close>

definition fl :: "real \<Rightarrow> pyfloat" where
  "fl x =
     (if x = 0 then Finite 0
      else (let e = max (exponent \<bar>x\<bar> - 52) (- 1074);
                r = of_int (round_half_even (\<bar>x\<bar> / pow2 e)) * pow2 e
            in if r \<ge> 2 ^ 1024 then (if x > 0 then PosInf else NegInf)
               else Finite (if x > 0 then r else - r)))"

text \<open>Addition, subtraction and multiplication of floats.\<close>

fun fadd :: "pyfloat \<Rightarrow> pyfloat \<Rightarrow> pyfloat" where
  "fadd (Finite x) (Finite y) = fl (x + y)"
| "fadd NaN _ = NaN"
| "fadd _ NaN = NaN"
| "fadd PosInf NegInf = NaN"
| "fadd NegInf PosInf = NaN"
| "fadd PosInf _ = PosInf"
| "fadd _ PosInf = PosInf"
| "fadd NegInf _ = NegInf"
| "fadd _ NegInf = NegInf"

fun fneg :: "pyfloat \<Rightarrow> pyfloat" where
  "fneg (Finite x) = Finite (- x)"
| "fneg PosInf = NegInf"
| "fneg NegInf = PosInf"
| "fneg NaN = NaN"

definition fsub :: "pyfloat \<Rightarrow> pyfloat \<Rightarrow> pyfloat" where
  "fsub a b = fadd a (fneg b)"

text \<open>The sign of a product with an infinity; zero times infinity is NaN.\<close>

definition signed_inf :: "bool \<Rightarrow> pyfloat" where
  "signed_inf positive = (if positive then PosInf else NegInf)"

fun fmul :: "pyfloat \<Rightarrow> pyfloat \<Rightarrow> pyfloat" where
  "fmul (Finite x) (Finite y) = fl (x * y)"
| "fmul NaN _ = NaN"
| "fmul _ NaN = NaN"
| "fmul (Finite x) PosInf = (if x = 0 then NaN else signed_inf (x > 0))"
| "fmul (Finite x) NegInf = (if x = 0 then NaN else signed_inf (x < 0))"
| "fmul PosInf (Finite y) = (if y = 0 then NaN else signed_inf (y > 0))"
| "fmul NegInf (Finite y) = (if y = 0 then NaN else signed_inf (y < 0))"
| "fmul PosInf PosInf = PosInf"
| "fmul PosInf NegInf = NegInf"
| "fmul NegInf PosInf = NegInf"
| "fmul NegInf NegInf = PosInf"

text \<open>The comparisons \<^verbatim>\<open><\<close> and \<^verbatim>\<open>>=\<close>: both are false when an operand is NaN.\<close>

fun flt :: "pyfloat \<Rightarrow> pyfloat \<Rightarrow> bool" where
  "flt (Finite x) (Finite y) = (x < y)"
| "flt NaN _ = False"
| "flt _ NaN = False"
| "flt _ NegInf = False"
| "flt NegInf _ = True"
| "flt PosInf _ = False"
| "flt (Finite x) PosInf = True"

fun fge :: "pyfloat \<Rightarrow> pyfloat \<Rightarrow> bool" where
  "fge (Finite x) (Finite y) = (x \<ge> y)"
| "fge NaN _ = False"
| "fge _ NaN = False"
| "fge PosInf _ = True"
| "fge _ NegInf = True"
| "fge _ _ = False"

text \<open>
  The conversion of an int to a float when an int meets a float in an arithmetic
  operation: correctly rounded, and an OverflowError instead of an infinity.
\<close>

definition float_of_int :: "int \<Rightarrow> py_error + pyfloat" where
  "float_of_int n =
     (case fl (of_int n) of
        Finite x \<Rightarrow> Inr (Finite x)
      | _ \<Rightarrow> Inl OverflowError)"

subsection \<open>Python strings\<close>

text \<open>
  A Python \<^verbatim>\<open>str\<close> is a sequence of Unicode code points, modelled as a list of
  naturals; \<open>lit\<close> turns an ASCII literal into such a list. \<open>isspace\<close> holds on the
  code points that \<^verbatim>\<open>str.strip()\<close> removes.
\<close>

type_synonym pystr = "nat list"

definition lit :: "string \<Rightarrow> pystr" where
  "lit cs = map of_char cs"

definition isspace :: "nat \<Rightarrow> bool" where
  "isspace c \<longleftrightarrow>
     (0x09 \<le> c \<and> c \<le> 0x0D) \<or> (0x1C \<le> c \<and> c \<le> 0x20) \<or> c = 0x85 \<or> c = 0xA0
     \<or> c = 0x1680 \<or> (0x2000 \<le> c \<and> c \<le> 0x200A) \<or> c = 0x2028 \<or> c = 0x2029
     \<or> c = 0x202F \<or> c = 0x205F \<or> c = 0x3000"

definition strip :: "pystr \<Rightarrow> pystr" where
  "strip s = rev (dropWhile isspace (rev (dropWhile isspace s)))"

text \<open>\<^verbatim>\<open>s.split(sep)\<close> for a separator of one code point: never an empty list.\<close>

fun split :: "nat \<Rightarrow> pystr \<Rightarrow> pystr list" where
  "split sep [] = [[]]"
| "split sep (c # cs) =
     (if c = sep then [] # split sep cs
      else (case split sep cs of
              [] \<Rightarrow> [[c]]
            | l # ls \<Rightarrow> (c # l) # ls))"

text \<open>\<^verbatim>\<open>sep.join(lines)\<close>.\<close>

fun join :: "pystr \<Rightarrow> pystr list \<Rightarrow> pystr" where
  "join sep [] = []"
| "join sep [l] = l"
| "join sep (l # ls) = l @ sep @ join sep ls"

definition replace_quote :: "pystr \<Rightarrow> pystr" where
  "replace_quote s = map (\<lambda>c. if c = 0x2019 then 0x27 else c) s"

text \<open>Decimal rendering of an integer, as an f-string prints it.\<close>

function digits :: "nat \<Rightarrow> pystr" where
  "digits n = (if n < 10 then [48 + n] else digits (n div 10) @ [48 + n mod 10])"
  by pat_completeness auto
termination
  by (relation "measure (\<lambda>n. n)") auto

declare digits.simps [simp del]

definition str_int :: "int \<Rightarrow> pystr" where
  "str_int i = (if i < 0 then lit ''-'' @ digits (nat (- i)) else digits (nat i))"

subsection \<open>The VibeVoiceDemo instance\<close>

text \<open>
  The fields of a \<^verbatim>\<open>VibeVoiceDemo\<close> object that the generator reads or writes.
  \<open>available_voices\<close> holds the keys of the dictionary of voice files;
  \<open>current_streamer\<close> is True when the attribute is not None.
\<close>

record VibeVoiceDemo =
  available_voices :: "pystr list"
  is_generating :: bool
  stop_generation :: bool
  current_streamer :: bool

subsection \<open>GPUManager: registry, health checks and selection\<close>

text \<open>
  The dictionaries of the manager are association lists in insertion order, as Python
  dictionaries iterate. A queue of \<^verbatim>\<open>gpu_queues\<close> only ever holds the task marker 1,
  so it is modelled by its size. \<open>recovery_threads\<close> lists the devices for which a
  \<^verbatim>\<open>recover_gpu\<close> thread has been started and has not run yet.
\<close>

record GPUManager =
  gpu_instances :: "(int \<times> VibeVoiceDemo) list"
  gpu_status :: "(int \<times> GPUStatus) list"
  gpu_queues :: "(int \<times> nat) list"
  gpu_locks :: "int list"
  recovery_threads :: "int list"

text \<open>In-place change of the object stored under a key; other keys and the order stay.\<close>

definition modify :: "'k \<Rightarrow> ('v \<Rightarrow> 'v) \<Rightarrow> ('k \<times> 'v) list \<Rightarrow> ('k \<times> 'v) list" where
  "modify k f d = map (\<lambda>(k', v). if k' = k then (k', f v) else (k', v)) d"

text \<open>
  \<^verbatim>\<open>_check_gpu_health\<close>: every device that has an instance is probed; \<open>probe g\<close>
  tells whether the test computation on device \<open>g\<close> succeeds. Success marks the
  device available, an exception marks it unavailable.
\<close>

definition check_gpu_health :: "(int \<Rightarrow> bool) \<Rightarrow> GPUManager \<Rightarrow> GPUManager" where
  "check_gpu_health probe m =
     m\<lparr>gpu_status :=
         fold (\<lambda>g st. modify g (\<lambda>s. s\<lparr>is_available := probe g\<rparr>) st)
           (map fst (gpu_instances m)) (gpu_status m)\<rparr>"

definition available_gpus :: "GPUManager \<Rightarrow> int list" where
  "available_gpus m = map fst (filter (\<lambda>(g, status). is_available status) (gpu_status m))"

text \<open>
  The property \<^verbatim>\<open>memory_usage_percent\<close> as the interpreter evaluates it: the
  quotient is rounded, then the product; \<open>memory_usage_percent\<close> above is the value
  of the same expression without rounding. The int 0 of the other branch becomes the
  float 0 in the product that follows.
\<close>

definition memory_usage_percent_float :: "GPUStatus \<Rightarrow> pyfloat" where
  "memory_usage_percent_float s =
     (if memory_total s > 0 then fmul (fl (memory_used s / memory_total s)) (Finite 100)
      else Finite 0)"

text \<open>
  The score of a device in the loop of \<^verbatim>\<open>select_best_gpu\<close>. The literals
  \<^verbatim>\<open>0.5\<close> and \<^verbatim>\<open>0.3\<close> are the floats nearest to them; \<open>queue_score\<close> is an
  int and is converted when it is added to a float.
\<close>

definition total_score :: "GPUStatus \<Rightarrow> py_error + pyfloat" where
  "total_score status =
     (let queue_score = queue_length status * 10;
          memory_score = fmul (memory_usage_percent_float status) (fl 0.5);
          util_score = fmul (Finite (utilization status)) (fl 0.3)
      in case float_of_int queue_score of
           Inl e \<Rightarrow> Inl e
         | Inr q \<Rightarrow> Inr (fadd (fadd q memory_score) util_score))"

text \<open>
  The scoring loop of \<^verbatim>\<open>select_best_gpu\<close>; \<open>best_score\<close> starts as
  \<^verbatim>\<open>float('inf')\<close>.
\<close>

fun best_loop ::
  "(int \<times> GPUStatus) list \<Rightarrow> int list \<Rightarrow> int option \<Rightarrow> pyfloat
   \<Rightarrow> py_error + int option" where
  "best_loop st [] best_gpu best_score = Inr best_gpu"
| "best_loop st (g # rest) best_gpu best_score =
     (case map_of st g of
        None \<Rightarrow> Inl (KeyError g)
      | Some status \<Rightarrow>
          (case total_score status of
             Inl e \<Rightarrow> Inl e
           | Inr score \<Rightarrow>
               if flt score best_score
               then best_loop st rest (Some g) score
               else best_loop st rest best_gpu best_score))"

definition select_best_gpu :: "(int \<Rightarrow> bool) \<Rightarrow> GPUManager \<Rightarrow> (py_error + int) \<times> GPUManager" where
  "select_best_gpu probe m =
     (let m' = (if available_gpus m = [] then check_gpu_health probe m else m)
      in if available_gpus m' = [] then (Inl NoGPUAvailable, m')
         else (case best_loop (gpu_status m') (available_gpus m') None PosInf of
                 Inl e \<Rightarrow> (Inl e, m')
               | Inr (Some best_gpu) \<Rightarrow> (Inr best_gpu, m')
               | Inr None \<Rightarrow>
                   (case available_gpus m' of
                      [] \<Rightarrow> (Inl IndexError, m')
                    | g # _ \<Rightarrow> (Inr g, m'))))"

text \<open>
  \<^verbatim>\<open>_handle_gpu_error\<close>: the device is marked unavailable when it has a status,
  and one \<^verbatim>\<open>recover_gpu\<close> thread is started. The thread body, after its delay of
  30 seconds, runs \<^verbatim>\<open>_check_gpu_health\<close> once and ends.
\<close>

definition handle_gpu_error :: "int \<Rightarrow> GPUManager \<Rightarrow> GPUManager" where
  "handle_gpu_error g m =
     m\<lparr>gpu_status := modify g (\<lambda>s. s\<lparr>is_available := False\<rparr>) (gpu_status m),
       recovery_threads := recovery_threads m @ [g]\<rparr>"

definition recover_gpu :: "(int \<Rightarrow> bool) \<Rightarrow> GPUManager \<Rightarrow> GPUManager" where
  "recover_gpu probe m =
     (case recovery_threads m of
        [] \<Rightarrow> m
      | g # rest \<Rightarrow> check_gpu_health probe (m\<lparr>recovery_threads := rest\<rparr>))"

text \<open>
  One cycle of \<^verbatim>\<open>_monitor_gpu_status\<close> for one device: the measurements
  overwrite the status fields; availability is not touched.
\<close>

definition monitor_update :: "int \<Rightarrow> real \<Rightarrow> real \<Rightarrow> real \<Rightarrow> GPUManager \<Rightarrow> GPUManager" where
  "monitor_update g mem util now m =
     (if g \<in> fst ` set (gpu_instances m) \<and> g \<in> fst ` set (gpu_status m)
      then (case map_of (gpu_queues m) g of
              None \<Rightarrow> m
            | Some n \<Rightarrow>
                m\<lparr>gpu_status :=
                    modify g (\<lambda>s. s\<lparr>memory_used := mem, utilization := util,
                                     queue_length := int n, last_updated := now\<rparr>)
                      (gpu_status m)\<rparr>)
      else m)"

subsection \<open>Script formatting\<close>

text \<open>
  The loop that assigns speaker ids (\<^verbatim>\<open>for line in lines\<close>), with
  \<open>formatted_script_lines\<close> as the accumulator.
\<close>

definition has_speaker_format :: "pystr \<Rightarrow> bool" where
  "has_speaker_format line \<longleftrightarrow> prefix (lit ''Speaker '') line \<and> 0x3A \<in> set line"

fun format_lines :: "int \<Rightarrow> pystr list \<Rightarrow> pystr list \<Rightarrow> pystr list" where
  "format_lines num_speakers [] formatted_script_lines = formatted_script_lines"
| "format_lines num_speakers (line # lines) formatted_script_lines =
     (let line = strip line
      in if line = [] then format_lines num_speakers lines formatted_script_lines
         else if has_speaker_format line
         then format_lines num_speakers lines (formatted_script_lines @ [line])
         else (let speaker_id = int (length formatted_script_lines) mod num_speakers
               in format_lines num_speakers lines
                    (formatted_script_lines
                       @ [lit ''Speaker '' @ str_int speaker_id @ lit '': '' @ line])))"

definition formatted_script_lines :: "int \<Rightarrow> pystr \<Rightarrow> pystr list" where
  "formatted_script_lines num_speakers script =
     format_lines num_speakers (split 0x0A (strip script)) []"

definition formatted_script :: "int \<Rightarrow> pystr \<Rightarrow> pystr" where
  "formatted_script num_speakers script =
     join (lit [CHR 0x0A]) (formatted_script_lines num_speakers script)"

subsection \<open>Requests, events and the environment of a session\<close>

record request =
  num_speakers :: int
  script :: pystr
  speaker_1 :: "pystr option"
  speaker_2 :: "pystr option"
  speaker_3 :: "pystr option"
  speaker_4 :: "pystr option"
  cfg_scale :: real

text \<open>A chunk after \<^verbatim>\<open>convert_to_16_bit_wav\<close>: a one-dimensional array of int16.\<close>

type_synonym chunk = "16 word list"

datatype gr_error =
    NoScript
  | BadSpeakerCount
  | InvalidSpeaker nat
  | VoiceLoadFailed pystr

datatype message =
    StoppedByUser
  | NoChunksReceived
  | NotStreamed
  | NoAudioGenerated
  | InputError gr_error
  | UnexpectedError
  | GPUFailure py_error

text \<open>
  What the generator yields. \<open>StoppedEarly\<close> is the three-element tuple of the stop
  checks before the drain loop; \<open>StreamingAudio\<close> carries the new audio of a flush in
  the drain loop, the total number of samples received so far and the chunk count;
  \<open>StreamingFinal\<close> is the delivery of the remaining buffer after the loop;
  \<open>CompleteAudio\<close> carries the concatenation of all chunks and the chunk count;
  \<open>Status\<close> is a tuple without audio.
\<close>

datatype event =
    StoppedEarly
  | StreamingAudio chunk nat nat
  | StreamingFinal chunk nat
  | CompleteAudio chunk nat
  | Status message

text \<open>
  The effects of the generator in program order: yields, the text handed to the
  processor, the start of the generation thread, \<^verbatim>\<open>time.sleep\<close>,
  \<^verbatim>\<open>audio_streamer.end()\<close> and \<^verbatim>\<open>generation_thread.join(timeout)\<close>.
\<close>

datatype action =
    Yield event
  | CallProcessor pystr
  | StartThread
  | Sleep real
  | EndStreamer
  | Join real

text \<open>
  An item of the audio stream as the drain loop meets it: a chunk, with the time
  \<^verbatim>\<open>time.time()\<close> read for it and whether \<^verbatim>\<open>stop_audio_generation\<close> was
  called since the previous poll of the stop flag; or an exception raised in the
  iteration for a chunk, while it is fetched, converted or measured.
\<close>

datatype stream_item = Chunk bool real chunk | StreamError

text \<open>
  Everything outside the generator that it observes: calls of
  \<^verbatim>\<open>stop_audio_generation\<close> from another thread before each poll of the stop flag,
  the length of the audio that \<^verbatim>\<open>read_audio\<close> returns for a voice, whether the
  processor or the thread start raises, the stream, the clock and whether the
  generation thread is still alive after the first join.
\<close>

record environment =
  stop_after_validation :: bool
  stop_after_voices :: bool
  stop_before_processing :: bool
  stop_after_start :: bool
  stop_at_end :: bool
  voice_length :: "pystr \<Rightarrow> nat"
  engine_error :: bool
  stream :: "stream_item list"
  clock_start :: real
  thread_alive :: bool

definition stop_audio_generation :: "VibeVoiceDemo \<Rightarrow> VibeVoiceDemo" where
  "stop_audio_generation d = d\<lparr>stop_generation := True\<rparr>"

text \<open>A poll of the stop flag, after a possible call of stop from another thread.\<close>

definition poll :: "bool \<Rightarrow> VibeVoiceDemo \<Rightarrow> VibeVoiceDemo" where
  "poll stop_called d = (if stop_called then stop_audio_generation d else d)"

subsection \<open>Validation and voice loading\<close>

text \<open>The loop \<^verbatim>\<open>for i, speaker in enumerate(selected_speakers)\<close>, from index \<open>i\<close>.\<close>

fun check_speakers :: "pystr list \<Rightarrow> nat \<Rightarrow> pystr option list \<Rightarrow> gr_error + pystr list" where
  "check_speakers voices i [] = Inr []"
| "check_speakers voices i (None # rest) = Inl (InvalidSpeaker (i + 1))"
| "check_speakers voices i (Some speaker # rest) =
     (if speaker = [] \<or> speaker \<notin> set voices then Inl (InvalidSpeaker (i + 1))
      else (case check_speakers voices (i + 1) rest of
              Inl e \<Rightarrow> Inl e
            | Inr names \<Rightarrow> Inr (speaker # names)))"

definition validate :: "request \<Rightarrow> VibeVoiceDemo \<Rightarrow> gr_error + pystr list" where
  "validate req d =
     (if strip (script req) = [] then Inl NoScript
      else if num_speakers req < 1 \<or> num_speakers req > 4 then Inl BadSpeakerCount
      else check_speakers (available_voices d) 0
             (take (nat (num_speakers req))
                [speaker_1 req, speaker_2 req, speaker_3 req, speaker_4 req]))"

fun load_voices :: "(pystr \<Rightarrow> nat) \<Rightarrow> pystr list \<Rightarrow> gr_error option" where
  "load_voices len [] = None"
| "load_voices len (speaker_name # rest) =
     (if len speaker_name = 0 then Some (VoiceLoadFailed speaker_name)
      else load_voices len rest)"

subsection \<open>The drain loop and its flush policy\<close>

definition sample_rate :: nat where
  "sample_rate = 24000"

definition min_yield_interval :: real where
  "min_yield_interval = 15"

definition min_chunk_size :: nat where
  "min_chunk_size = sample_rate * 30"

record drain_state =
  all_audio_chunks :: "chunk list"
  pending_chunks :: "chunk list"
  chunk_count :: nat
  last_yield_time :: real
  has_yielded_audio :: bool
  has_received_chunks :: bool

definition initial_drain_state :: "real \<Rightarrow> drain_state" where
  "initial_drain_state now =
     \<lparr>all_audio_chunks = [], pending_chunks = [], chunk_count = 0, last_yield_time = now,
      has_yielded_audio = False, has_received_chunks = False\<rparr>"

text \<open>\<^verbatim>\<open>sum(len(chunk) for chunk in chunks)\<close>.\<close>

definition total_samples :: "chunk list \<Rightarrow> nat" where
  "total_samples chunks = sum_list (map length chunks)"

text \<open>The body of the drain loop after the stop check, for one chunk.\<close>

definition drain_step :: "real \<Rightarrow> chunk \<Rightarrow> drain_state \<Rightarrow> action list \<times> drain_state" where
  "drain_step current_time audio_16bit s =
     (let s1 = s\<lparr>chunk_count := chunk_count s + 1, has_received_chunks := True,
                 all_audio_chunks := all_audio_chunks s @ [audio_16bit],
                 pending_chunks := pending_chunks s @ [audio_16bit]\<rparr>;
          pending_audio_size = total_samples (pending_chunks s1);
          time_since_last_yield = fsub (Finite current_time) (Finite (last_yield_time s1));
          (should_yield, yielded) =
             (if \<not> has_yielded_audio s1 \<and> pending_audio_size \<ge> min_chunk_size
              then (True, True)
              else if has_yielded_audio s1
                      \<and> (pending_audio_size \<ge> min_chunk_size
                          \<or> fge time_since_last_yield (Finite min_yield_interval))
              then (True, has_yielded_audio s1)
              else (False, has_yielded_audio s1));
          s2 = s1\<lparr>has_yielded_audio := yielded\<rparr>
      in if should_yield \<and> pending_chunks s2 \<noteq> []
         then ([Yield (StreamingAudio (concat (pending_chunks s2))
                         (total_samples (all_audio_chunks s2)) (chunk_count s2))],
               s2\<lparr>pending_chunks := [], last_yield_time := current_time\<rparr>)
         else ([], s2))"

datatype loop_exit = Exhausted | Broken | Raised

fun drain_loop ::
  "stream_item list \<Rightarrow> VibeVoiceDemo \<Rightarrow> drain_state
   \<Rightarrow> action list \<times> VibeVoiceDemo \<times> drain_state \<times> loop_exit" where
  "drain_loop [] d s = ([], d, s, Exhausted)"
| "drain_loop (StreamError # rest) d s = ([], d, s, Raised)"
| "drain_loop (Chunk stop_called now audio # rest) d s =
     (let d1 = poll stop_called d
      in if stop_generation d1 then ([EndStreamer], d1, s, Broken)
         else (case drain_step now audio s of
                 (out, s1) \<Rightarrow>
                   (case drain_loop rest d1 s1 of
                      (out', r) \<Rightarrow> (out @ out', r))))"

text \<open>
  The code after the drain loop: the remaining buffer, the joins, and the final yield.
\<close>

definition finish ::
  "bool \<Rightarrow> bool \<Rightarrow> VibeVoiceDemo \<Rightarrow> drain_state \<Rightarrow> action list \<times> VibeVoiceDemo" where
  "finish alive stop_called d s =
     (let (out, s1) =
            (if pending_chunks s \<noteq> []
             then ([Yield (StreamingFinal (concat (pending_chunks s))
                             (total_samples (all_audio_chunks s)))],
                   s\<lparr>has_yielded_audio := True\<rparr>)
             else ([], s));
          joins = Join 5 # (if alive then [EndStreamer, Join 5] else []);
          d1 = poll stop_called (d\<lparr>current_streamer := False, is_generating := False\<rparr>);
          last =
            (if stop_generation d1 then Status StoppedByUser
             else if has_received_chunks s1 \<and> \<not> has_yielded_audio s1
                     \<and> all_audio_chunks s1 \<noteq> []
             then CompleteAudio (concat (all_audio_chunks s1)) (chunk_count s1)
             else if \<not> has_received_chunks s1 then Status NoChunksReceived
             else if \<not> has_yielded_audio s1 then Status NotStreamed
             else if all_audio_chunks s1 \<noteq> []
             then CompleteAudio (concat (all_audio_chunks s1)) (chunk_count s1)
             else Status NoAudioGenerated)
      in (out @ joins @ [Yield last], d1))"

subsection \<open>VibeVoiceDemo.generate_podcast_streaming\<close>

text \<open>
  The body of the \<^verbatim>\<open>try\<close> block: the actions performed, the instance, and the
  exception that leaves the block, if any (\<open>Inl\<close> a \<^verbatim>\<open>gr.Error\<close>, \<open>Inr ()\<close> any
  other exception).
\<close>

definition streaming_phase ::
  "environment \<Rightarrow> VibeVoiceDemo \<Rightarrow> action list \<times> VibeVoiceDemo \<times> (gr_error + unit) option" where
  "streaming_phase env d =
     (case drain_loop (stream env) d (initial_drain_state (clock_start env)) of
        (out, d1, s, Raised) \<Rightarrow> (out, d1, Some (Inr ()))
      | (out, d1, s, _) \<Rightarrow>
          (case finish (thread_alive env) (stop_at_end env) d1 s of
             (out', d2) \<Rightarrow> (out @ out', d2, None)))"

definition try_body ::
  "request \<Rightarrow> environment \<Rightarrow> VibeVoiceDemo
   \<Rightarrow> action list \<times> VibeVoiceDemo \<times> (gr_error + unit) option" where
  "try_body req env d =
     (let d0 = d\<lparr>stop_generation := False, is_generating := True\<rparr>
      in case validate req d0 of
           Inl e \<Rightarrow> ([], d0\<lparr>is_generating := False\<rparr>, Some (Inl e))
         | Inr selected_speakers \<Rightarrow>
             (let d1 = poll (stop_after_validation env) d0
              in if stop_generation d1
                 then ([Yield StoppedEarly], d1\<lparr>is_generating := False\<rparr>, None)
                 else (case load_voices (voice_length env) selected_speakers of
                         Some e \<Rightarrow> ([], d1\<lparr>is_generating := False\<rparr>, Some (Inl e))
                       | None \<Rightarrow>
                           (let d2 = poll (stop_after_voices env) d1
                            in if stop_generation d2
                               then ([Yield StoppedEarly], d2\<lparr>is_generating := False\<rparr>, None)
                               else (let text = formatted_script (num_speakers req)
                                                  (replace_quote (script req));
                                         d3 = poll (stop_before_processing env) d2
                                     in if stop_generation d3
                                        then ([Yield StoppedEarly],
                                              d3\<lparr>is_generating := False\<rparr>, None)
                                        else if engine_error env
                                        then ([CallProcessor text], d3, Some (Inr ()))
                                        else (let d4 = poll (stop_after_start env)
                                                         (d3\<lparr>current_streamer := True\<rparr>);
                                                  start = [CallProcessor text, StartThread,
                                                           Sleep 1]
                                              in if stop_generation d4
                                                 then (start @ [EndStreamer, Join 5,
                                                                Yield StoppedEarly],
                                                       d4\<lparr>is_generating := False\<rparr>, None)
                                                 else (case streaming_phase env d4 of
                                                         (out, r) \<Rightarrow> (start @ out, r))))))))"

text \<open>
  The generator with its two handlers. Both reset the instance and yield one error
  tuple, so no exception leaves the generator.
\<close>

definition demo_generate_podcast_streaming ::
  "request \<Rightarrow> environment \<Rightarrow> VibeVoiceDemo \<Rightarrow> action list \<times> VibeVoiceDemo" where
  "demo_generate_podcast_streaming req env d =
     (case try_body req env d of
        (out, d1, None) \<Rightarrow> (out, d1)
      | (out, d1, Some (Inl e)) \<Rightarrow>
          (out @ [Yield (Status (InputError e))],
           d1\<lparr>is_generating := False, current_streamer := False\<rparr>)
      | (out, d1, Some (Inr u)) \<Rightarrow>
          (out @ [Yield (Status UnexpectedError)],
           d1\<lparr>is_generating := False, current_streamer := False\<rparr>))"

subsection \<open>GPUManager.generate_podcast_streaming\<close>

text \<open>
  The effects of the manager's generator in program order: the device chosen, the
  \<^verbatim>\<open>put\<close> and \<^verbatim>\<open>get_nowait\<close> on its queue, the call of
  \<^verbatim>\<open>_handle_gpu_error\<close>, the actions of the session it runs (its yields are
  passed on to the caller) and the error tuple the manager yields itself.
\<close>

datatype manager_action =
    Select int
  | QueuePut int
  | QueueGet int
  | HandleGpuError int
  | Session action
  | YieldError py_error

definition queue_put :: "int \<Rightarrow> GPUManager \<Rightarrow> GPUManager" where
  "queue_put g m = m\<lparr>gpu_queues := modify g (\<lambda>n. n + 1) (gpu_queues m)\<rparr>"

text \<open>\<^verbatim>\<open>get_nowait\<close> with \<^verbatim>\<open>queue.Empty\<close> swallowed.\<close>

definition queue_get_nowait :: "int \<Rightarrow> GPUManager \<Rightarrow> GPUManager" where
  "queue_get_nowait g m =
     m\<lparr>gpu_queues := modify g (\<lambda>n. if n = 0 then 0 else n - 1) (gpu_queues m)\<rparr>"

text \<open>
  \<open>inner\<close> is the generator of the chosen instance: its actions, the instance
  afterwards, and the exception that escapes it, if any. The result is the trace, the
  manager afterwards, and the exception that escapes the manager's generator, which
  happens only when the \<^verbatim>\<open>finally\<close> block itself meets a missing lock or queue.
\<close>

definition manager_generate_podcast_streaming ::
  "(int \<Rightarrow> bool) \<Rightarrow> (VibeVoiceDemo \<Rightarrow> action list \<times> VibeVoiceDemo \<times> py_error option)
   \<Rightarrow> GPUManager \<Rightarrow> manager_action list \<times> GPUManager \<times> py_error option" where
  "manager_generate_podcast_streaming probe inner m =
     (case select_best_gpu probe m of
        (Inl e, m1) \<Rightarrow> ([YieldError e], m1, None)
      | (Inr selected_gpu, m1) \<Rightarrow>
          if selected_gpu \<notin> set (gpu_locks m1) \<or> selected_gpu \<notin> fst ` set (gpu_queues m1)
          then ([Select selected_gpu, HandleGpuError selected_gpu,
                 YieldError (KeyError selected_gpu)],
                handle_gpu_error selected_gpu m1, Some (KeyError selected_gpu))
          else (let m2 = queue_put selected_gpu m1
                in case map_of (gpu_instances m2) selected_gpu of
                     None \<Rightarrow>
                       ([Select selected_gpu, QueuePut selected_gpu,
                         HandleGpuError selected_gpu, YieldError (KeyError selected_gpu),
                         QueueGet selected_gpu],
                        queue_get_nowait selected_gpu (handle_gpu_error selected_gpu m2),
                        None)
                   | Some demo_instance \<Rightarrow>
                       (case inner demo_instance of
                          (out, d, raised) \<Rightarrow>
                            (let m3 = m2\<lparr>gpu_instances :=
                                          modify selected_gpu (\<lambda>_. d) (gpu_instances m2)\<rparr>
                             in case raised of
                                  None \<Rightarrow>
                                    ([Select selected_gpu, QueuePut selected_gpu]
                                       @ map Session out @ [QueueGet selected_gpu],
                                     queue_get_nowait selected_gpu m3, None)
                                | Some e \<Rightarrow>
                                    ([Select selected_gpu, QueuePut selected_gpu]
                                       @ map Session out
                                       @ [HandleGpuError selected_gpu, YieldError e,
                                          QueueGet selected_gpu],
                                     queue_get_nowait selected_gpu
                                       (handle_gpu_error selected_gpu m3),
                                     None)))))"

text \<open>The manager's generator running the session of \<open>VibeVoiceDemo\<close>.\<close>

definition generate :: "(int \<Rightarrow> bool) \<Rightarrow> request \<Rightarrow> environment \<Rightarrow> GPUManager
    \<Rightarrow> manager_action list \<times> GPUManager \<times> py_error option" where
  "generate probe req env m =
     manager_generate_podcast_streaming probe
       (\<lambda>d. case demo_generate_podcast_streaming req env d of (out, d') \<Rightarrow> (out, d', None)) m"

subsection \<open>Operations on the manager as a state machine\<close>

text \<open>
  The operations that read or write the registry, for statements about sequences of
  them: a monitor cycle for one device, a selection, the fault handler, the body of a
  recovery thread and a health check.
\<close>

datatype manager_op =
    Monitor int real real real
  | Selection "int \<Rightarrow> bool"
  | Fault int
  | Recovery "int \<Rightarrow> bool"
  | HealthCheck "int \<Rightarrow> bool"

text \<open>The state after an operation, and the device a selection returned.\<close>

fun apply_op :: "manager_op \<Rightarrow> GPUManager \<Rightarrow> int option \<times> GPUManager" where
  "apply_op (Monitor g mem util now) m = (None, monitor_update g mem util now m)"
| "apply_op (Selection probe) m =
     (case select_best_gpu probe m of
        (Inl e, m') \<Rightarrow> (None, m')
      | (Inr g, m') \<Rightarrow> (Some g, m'))"
| "apply_op (Fault g) m = (None, handle_gpu_error g m)"
| "apply_op (Recovery probe) m = (None, recover_gpu probe m)"
| "apply_op (HealthCheck probe) m = (None, check_gpu_health probe m)"

fun run_ops :: "manager_op list \<Rightarrow> GPUManager \<Rightarrow> int list \<times> GPUManager" where
  "run_ops [] m = ([], m)"
| "run_ops (op # ops) m =
     (case apply_op op m of
        (sel, m') \<Rightarrow>
          (case run_ops ops m' of
             (sels, m'') \<Rightarrow> ((case sel of None \<Rightarrow> [] | Some g \<Rightarrow> [g]) @ sels, m'')))"

text \<open>Whether an operation comes with a probe that succeeds on device \<open>g\<close>.\<close>

fun probe_succeeds :: "manager_op \<Rightarrow> int \<Rightarrow> bool" where
  "probe_succeeds (Selection probe) g = probe g"
| "probe_succeeds (Recovery probe) g = probe g"
| "probe_succeeds (HealthCheck probe) g = probe g"
| "probe_succeeds _ g = False"

subsection \<open>Auxiliary notions for the statements\<close>

text \<open>
  Whether the score of a device is a finite float, that float as a real number, and
  the score of the device registered under an id.
\<close>

definition finite_score :: "GPUStatus \<Rightarrow> bool" where
  "finite_score s = (case total_score s of Inr (Finite x) \<Rightarrow> True | _ \<Rightarrow> False)"

definition score_value :: "GPUStatus \<Rightarrow> real" where
  "score_value s = (case total_score s of Inr (Finite x) \<Rightarrow> x | _ \<Rightarrow> 0)"

definition score_of :: "(int \<times> GPUStatus) list \<Rightarrow> int \<Rightarrow> real" where
  "score_of st g = (case map_of st g of None \<Rightarrow> 0 | Some s \<Rightarrow> score_value s)"

text \<open>
  \<open>r\<close> is the first element of \<open>xs\<close> with the least value of \<open>f\<close>: everything before
  it is strictly larger, everything after it is at least as large.
\<close>

definition first_min :: "('a \<Rightarrow> real) \<Rightarrow> 'a list \<Rightarrow> 'a \<Rightarrow> bool" where
  "first_min f xs r \<longleftrightarrow>
     (\<exists>pre post. xs = pre @ r # post
        \<and> (\<forall>h\<in>set pre. f r < f h) \<and> (\<forall>h\<in>set post. f r \<le> f h))"

text \<open>
  The lines of a script that the formatting loop does not skip, after stripping, and
  the line the loop appends for the \<open>k\<close>-th of them.
\<close>

definition nonblank_lines :: "pystr \<Rightarrow> pystr list" where
  "nonblank_lines scr = filter (\<lambda>l. l \<noteq> []) (map strip (split 0x0A (strip scr)))"

definition expected_line :: "int \<Rightarrow> nat \<Rightarrow> pystr \<Rightarrow> pystr" where
  "expected_line n k line =
     (if has_speaker_format line then line
      else lit ''Speaker '' @ str_int (int k mod n) @ lit '': '' @ line)"

text \<open>
  Views of a stream and of a trace. \<open>produced_chunks\<close> are all chunks of the stream;
  \<open>received_chunks\<close> are those the drain loop takes before it meets a stop request or
  an error, and \<open>stream_outcome\<close> tells how the loop ends. \<open>streamed_audio\<close> is the
  audio of the streaming events of a trace, in order, \<open>complete_audio\<close> that of its
  complete-audio events, and \<open>yields\<close> are the events given to the caller.
\<close>

fun produced_chunks :: "stream_item list \<Rightarrow> chunk list" where
  "produced_chunks [] = []"
| "produced_chunks (Chunk stop_called now audio # rest) = audio # produced_chunks rest"
| "produced_chunks (StreamError # rest) = produced_chunks rest"

fun received_chunks :: "stream_item list \<Rightarrow> chunk list" where
  "received_chunks [] = []"
| "received_chunks (Chunk stop_called now audio # rest) =
     (if stop_called then [] else audio # received_chunks rest)"
| "received_chunks (StreamError # rest) = []"

fun stream_outcome :: "stream_item list \<Rightarrow> loop_exit" where
  "stream_outcome [] = Exhausted"
| "stream_outcome (Chunk stop_called now audio # rest) =
     (if stop_called then Broken else stream_outcome rest)"
| "stream_outcome (StreamError # rest) = Raised"

fun streamed_audio :: "action list \<Rightarrow> chunk" where
  "streamed_audio [] = []"
| "streamed_audio (Yield (StreamingAudio audio tot n) # rest) = audio @ streamed_audio rest"
| "streamed_audio (Yield (StreamingFinal audio tot) # rest) = audio @ streamed_audio rest"
| "streamed_audio (a # rest) = streamed_audio rest"

fun complete_audio :: "action list \<Rightarrow> chunk" where
  "complete_audio [] = []"
| "complete_audio (Yield (CompleteAudio audio n) # rest) = audio @ complete_audio rest"
| "complete_audio (a # rest) = complete_audio rest"

fun yields :: "action list \<Rightarrow> event list" where
  "yields [] = []"
| "yields (Yield e # rest) = e # yields rest"
| "yields (a # rest) = yields rest"

text \<open>The flushes of the drain loop in a trace.\<close>

fun is_flush :: "action \<Rightarrow> bool" where
  "is_flush (Yield (StreamingAudio audio tot n)) = True"
| "is_flush a = False"

text \<open>
  A session reaches the streaming phase when the request is valid, the voices load,
  the engine starts, and no stop request is seen by the four polls before the drain
  loop.
\<close>

definition reaches_streaming :: "request \<Rightarrow> environment \<Rightarrow> VibeVoiceDemo \<Rightarrow> bool" where
  "reaches_streaming req env d \<longleftrightarrow>
     (case validate req (d\<lparr>stop_generation := False, is_generating := True\<rparr>) of
        Inl e \<Rightarrow> False
      | Inr selected_speakers \<Rightarrow> load_voices (voice_length env) selected_speakers = None)
     \<and> \<not> stop_after_validation env \<and> \<not> stop_after_voices env
     \<and> \<not> stop_before_processing env \<and> \<not> stop_after_start env \<and> \<not> engine_error env"

text \<open>
  The instance when the drain loop starts, the invariant of the loop that received
  audio is either flushed or still buffered, and the last event of a session whose
  stream raised no exception.
\<close>

definition started :: "VibeVoiceDemo \<Rightarrow> VibeVoiceDemo" where
  "started d = d\<lparr>stop_generation := False, is_generating := True, current_streamer := True\<rparr>"

definition buffered :: "drain_state \<Rightarrow> bool" where
  "buffered s \<longleftrightarrow> (has_received_chunks s \<longrightarrow> has_yielded_audio s \<or> pending_chunks s \<noteq> [])"


text \<open>The actions every session performs before the drain loop.\<close>

definition startup :: "request \<Rightarrow> action list" where
  "startup req =
     [CallProcessor (formatted_script (num_speakers req) (replace_quote (script req))),
      StartThread, Sleep 1]"


text \<open>The \<^verbatim>\<open>put\<close> and \<^verbatim>\<open>get_nowait\<close> of a trace of the manager.\<close>

fun is_queue_op :: "manager_action \<Rightarrow> bool" where
  "is_queue_op (QueuePut g) = True"
| "is_queue_op (QueueGet g) = True"
| "is_queue_op a = False"

text \<open>A request, an environment and streams for examples.\<close>

definition example_request :: request where
  "example_request =
     \<lparr>num_speakers = 1, script = lit ''hello'', speaker_1 = Some (lit ''Alice''),
      speaker_2 = None, speaker_3 = None, speaker_4 = None, cfg_scale = 1.3\<rparr>"

definition quiet :: "stream_item list \<Rightarrow> environment" where
  "quiet items =
     \<lparr>stop_after_validation = False, stop_after_voices = False,
      stop_before_processing = False, stop_after_start = False, stop_at_end = False,
      voice_length = (\<lambda>v. 24000), engine_error = False, stream = items, clock_start = 0,
      thread_alive = False\<rparr>"

definition one_second :: chunk where
  "one_second = replicate sample_rate 0"

definition one_second_stream :: "nat \<Rightarrow> stream_item list" where
  "one_second_stream n = map (\<lambda>i. Chunk False (real i) one_second) [0..<n]"

text \<open>
  Registries for examples: a device with 100 GB of memory of which \<open>used\<close> GB are in
  use, idle and with an empty queue, has the score \<open>used * 0.5\<close>.
\<close>

definition device :: "int \<Rightarrow> real \<Rightarrow> bool \<Rightarrow> GPUStatus" where
  "device g used avail =
     \<lparr>gpu_id = g, device_name = ''GPU'', memory_used = used, memory_total = 100,
      utilization = 0, queue_length = 0, is_available = avail, last_updated = 0\<rparr>"

text \<open>
  An available device with 80 GB of memory of which \<open>used\<close> GB are in use, a
  utilization of \<open>util\<close> percent and an empty queue.
\<close>

definition loaded_device :: "int \<Rightarrow> real \<Rightarrow> real \<Rightarrow> GPUStatus" where
  "loaded_device g used util =
     \<lparr>gpu_id = g, device_name = ''GPU'', memory_used = used, memory_total = 80,
      utilization = util, queue_length = 0, is_available = True, last_updated = 0\<rparr>"

definition fresh_instance :: VibeVoiceDemo where
  "fresh_instance =
     \<lparr>available_voices = [lit ''Alice'', lit ''Bob''], is_generating = False,
      stop_generation = False, current_streamer = False\<rparr>"

definition manager_of :: "GPUStatus list \<Rightarrow> GPUManager" where
  "manager_of sts =
     \<lparr>gpu_instances = map (\<lambda>s. (gpu_id s, fresh_instance)) sts,
      gpu_status = map (\<lambda>s. (gpu_id s, s)) sts,
      gpu_queues = map (\<lambda>s. (gpu_id s, 0)) sts,
      gpu_locks = map gpu_id sts,
      recovery_threads = []\<rparr>"

definition healthy :: "int \<Rightarrow> bool" where
  "healthy g = True"

definition broken :: "int \<Rightarrow> bool" where
  "broken g = False"

definition healthy_except :: "int \<Rightarrow> int \<Rightarrow> bool" where
  "healthy_except g h \<longleftrightarrow> h \<noteq> g"

section \<open>Properties\<close>

subsection \<open>Evaluation of float arithmetic\<close>

lemmas eval_float = fl_def exponent_def bit_length.simps pow2_def round_half_even_def Let_def
  float_of_int_def memory_usage_percent_float_def total_score_def signed_inf_def

lemma fl_half: "fl 0.5 = Finite (1 / 2)"
  by (simp add: eval_float)

lemma fl_three_tenths: "fl 0.3 = Finite (5404319552844595 / 18014398509481984)"
  by (simp add: eval_float)

text \<open>The scores of the example devices.\<close>

lemma device_scores:
  "total_score (device g 10 a) = Inr (Finite 5)"
  "total_score (device g 4 a) = Inr (Finite 2)"
  "total_score (device g 18 a) = Inr (Finite 9)"
  by (simp_all add: device_def eval_float)

lemma loaded_device_scores:
  "total_score (loaded_device g 12 6) = Inr (Finite (2617717283409101 / 281474976710656))"
  "total_score (loaded_device g 0 31) = Inr (Finite (5235434566818201 / 562949953421312))"
  by (simp_all add: loaded_device_def eval_float)

subsection \<open>C3: the device that select_best_gpu returns\<close>

lemma first_min_here: "\<forall>h\<in>set xs. f r \<le> f h \<Longrightarrow> first_min f (r # xs) r"
  unfolding first_min_def
  by (rule exI[of _ "[]"], rule exI[of _ xs]) simp

lemma first_min_later:
  assumes "first_min f xs r" and "f r < f g"
  shows "first_min f (g # xs) r"
proof -
  from assms(1) obtain pre post where
    p: "xs = pre @ r # post" "\<forall>h\<in>set pre. f r < f h" "\<forall>h\<in>set post. f r \<le> f h"
    unfolding first_min_def by blast
  show ?thesis
    unfolding first_min_def
    by (rule exI[of _ "g # pre"], rule exI[of _ post]) (use p assms(2) in simp)
qed

lemma map_of_key: "g \<in> fst ` set st \<Longrightarrow> \<exists>s. map_of st g = Some s"
  by (induction st) auto

lemma finite_score_total: "finite_score s \<Longrightarrow> total_score s = Inr (Finite (score_value s))"
  by (auto simp: finite_score_def score_value_def split: sum.splits pyfloat.splits)

text \<open>
  The scoring loop started with a best device \<open>b\<close> of finite score \<open>v\<close>, on devices
  of finite scores: it keeps \<open>b\<close> when no device of the list scores below \<open>v\<close>, and
  otherwise returns the first device of the list with the least score.
\<close>

lemma best_loop_acc:
  assumes "set gs \<subseteq> fst ` set st"
    and "\<forall>h\<in>set gs. \<forall>s. map_of st h = Some s \<longrightarrow> finite_score s"
  shows "\<exists>r. best_loop st gs (Some b) (Finite v) = Inr (Some r) \<and>
           ((r = b \<and> (\<forall>h\<in>set gs. v \<le> score_of st h)) \<or>
            (first_min (score_of st) gs r \<and> score_of st r < v))"
  using assms
proof (induction gs arbitrary: b v)
  case Nil
  then show ?case by simp
next
  case (Cons g rest)
  from Cons.prems(1) map_of_key[of g st] obtain s where s: "map_of st g = Some s"
    by auto
  have rest: "set rest \<subseteq> fst ` set st" using Cons.prems(1) by simp
  have fin: "\<forall>h\<in>set rest. \<forall>s. map_of st h = Some s \<longrightarrow> finite_score s"
    using Cons.prems(2) by simp
  have ts: "total_score s = Inr (Finite (score_value s))"
    using Cons.prems(2) s by (intro finite_score_total) simp
  have sc: "score_of st g = score_value s" by (simp add: score_of_def s)
  show ?case
  proof (cases "score_value s < v")
    case True
    from Cons.IH[OF rest fin, of g "score_value s"] obtain r where
      r: "best_loop st rest (Some g) (Finite (score_value s)) = Inr (Some r)"
      and d: "(r = g \<and> (\<forall>h\<in>set rest. score_value s \<le> score_of st h)) \<or>
            (first_min (score_of st) rest r \<and> score_of st r < score_value s)" by blast
    have run: "best_loop st (g # rest) (Some b) (Finite v) = Inr (Some r)"
      using r s ts True by simp
    from d have "first_min (score_of st) (g # rest) r \<and> score_of st r < v"
    proof
      assume a: "r = g \<and> (\<forall>h\<in>set rest. score_value s \<le> score_of st h)"
      then have "first_min (score_of st) (r # rest) r"
        using sc by (intro first_min_here) simp
      then show ?thesis using a True sc by simp
    next
      assume a: "first_min (score_of st) rest r \<and> score_of st r < score_value s"
      then have "first_min (score_of st) (g # rest) r"
        using sc by (intro first_min_later) simp_all
      then show ?thesis using a True by simp
    qed
    then show ?thesis using run by blast
  next
    case False
    from Cons.IH[OF rest fin, of b v] obtain r where
      r: "best_loop st rest (Some b) (Finite v) = Inr (Some r)"
      and d: "(r = b \<and> (\<forall>h\<in>set rest. v \<le> score_of st h)) \<or>
            (first_min (score_of st) rest r \<and> score_of st r < v)" by blast
    have run: "best_loop st (g # rest) (Some b) (Finite v) = Inr (Some r)"
      using r s ts False by simp
    from d have "(r = b \<and> (\<forall>h\<in>set (g # rest). v \<le> score_of st h)) \<or>
            (first_min (score_of st) (g # rest) r \<and> score_of st r < v)"
    proof
      assume "r = b \<and> (\<forall>h\<in>set rest. v \<le> score_of st h)"
      then show ?thesis using False sc by simp
    next
      assume a: "first_min (score_of st) rest r \<and> score_of st r < v"
      then have "first_min (score_of st) (g # rest) r"
        using sc False by (intro first_min_later) simp_all
      then show ?thesis using a by simp
    qed
    then show ?thesis using run by blast
  qed
qed

lemma best_loop_first_min:
  assumes "set gs \<subseteq> fst ` set st" and "gs \<noteq> []"
    and "\<forall>h\<in>set gs. \<forall>s. map_of st h = Some s \<longrightarrow> finite_score s"
  shows "\<exists>r. best_loop st gs None PosInf = Inr (Some r) \<and> first_min (score_of st) gs r"
proof -
  from assms obtain g rest where gs: "gs = g # rest" by (cases gs) auto
  from assms gs map_of_key[of g st] obtain s where s: "map_of st g = Some s"
    by auto
  have ts: "total_score s = Inr (Finite (score_value s))"
    using assms(3) s gs by (intro finite_score_total) simp
  have sc: "score_of st g = score_value s" by (simp add: score_of_def s)
  have rest: "set rest \<subseteq> fst ` set st" using assms gs by simp
  have fin: "\<forall>h\<in>set rest. \<forall>s. map_of st h = Some s \<longrightarrow> finite_score s"
    using assms(3) gs by simp
  from best_loop_acc[OF rest fin, of g "score_value s"] obtain r where
      r: "best_loop st rest (Some g) (Finite (score_value s)) = Inr (Some r)"
      and d: "(r = g \<and> (\<forall>h\<in>set rest. score_value s \<le> score_of st h)) \<or>
            (first_min (score_of st) rest r \<and> score_of st r < score_value s)" by blast
  have run: "best_loop st gs None PosInf = Inr (Some r)" using r s ts gs by simp
  from d have "first_min (score_of st) (g # rest) r"
  proof
    assume a: "r = g \<and> (\<forall>h\<in>set rest. score_value s \<le> score_of st h)"
    then have "first_min (score_of st) (r # rest) r"
      using sc by (intro first_min_here) simp
    then show ?thesis using a by simp
  next
    assume a: "first_min (score_of st) rest r \<and> score_of st r < score_value s"
    then show ?thesis using sc by (intro first_min_later) simp_all
  qed
  then show ?thesis using run gs by blast
qed

lemma score_of_member:
  "distinct (map fst st) \<Longrightarrow> (h, t) \<in> set st \<Longrightarrow> score_of st h = score_value t"
  by (simp add: score_of_def)

lemma available_gpus_keys: "set (available_gpus m) \<subseteq> fst ` set (gpu_status m)"
  by (auto simp: available_gpus_def)

lemma available_gpus_status:
  assumes "distinct (map fst (gpu_status m))" and "h \<in> set (available_gpus m)"
    and "map_of (gpu_status m) h = Some s"
  shows "(h, s) \<in> set (gpu_status m) \<and> is_available s"
proof -
  from assms(2) obtain t where t: "(h, t) \<in> set (gpu_status m)" "is_available t"
    by (auto simp: available_gpus_def)
  from assms(1) t(1) have "map_of (gpu_status m) h = Some t" by (rule map_of_is_SomeI)
  with assms(3) have "s = t" by simp
  with t show ?thesis by simp
qed

lemma select_best_gpu_first_min:
  assumes "distinct (map fst (gpu_status m))" and "available_gpus m \<noteq> []"
    and "\<forall>(h, t) \<in> set (gpu_status m). is_available t \<longrightarrow> finite_score t"
  shows "\<exists>g. select_best_gpu probe m = (Inr g, m)
           \<and> first_min (score_of (gpu_status m)) (available_gpus m) g"
proof -
  have fin: "\<forall>h\<in>set (available_gpus m). \<forall>s. map_of (gpu_status m) h = Some s
      \<longrightarrow> finite_score s"
    using available_gpus_status[OF assms(1)] assms(3) by blast
  from best_loop_first_min[OF available_gpus_keys assms(2) fin] obtain r where
    r: "best_loop (gpu_status m) (available_gpus m) None PosInf = Inr (Some r)"
       "first_min (score_of (gpu_status m)) (available_gpus m) r" by blast
  have "select_best_gpu probe m = (Inr r, m)"
    using assms(2) r(1) by (simp add: select_best_gpu_def)
  then show ?thesis using r(2) by blast
qed

text \<open>The two examples of the specification: scores 5, 2, 9 and a tie 5, 5.\<close>

lemma select_best_gpu_example_scores:
  "total_score (device 0 10 True) = Inr (Finite 5)
   \<and> total_score (device 1 4 True) = Inr (Finite 2)
   \<and> total_score (device 2 18 True) = Inr (Finite 9)
   \<and> fst (select_best_gpu healthy
        (manager_of [device 0 10 True, device 1 4 True, device 2 18 True])) = Inr 1"
  by (simp add: select_best_gpu_def available_gpus_def manager_of_def device_scores)
    (simp add: device_def)

lemma select_best_gpu_example_tie:
  "fst (select_best_gpu healthy (manager_of [device 0 10 True, device 1 10 True])) = Inr 0"
  by (simp add: select_best_gpu_def available_gpus_def manager_of_def device_scores)
    (simp add: device_def)

text \<open>
  Scores are compared after rounding. With 12 of 80 GB in use and a utilization of 6
  the score is the float 9.3; with no memory in use and a utilization of 31 it is the
  float below it, 9.299999999999999, and the second device is returned although the
  two scores are equal as real numbers.
\<close>

lemma select_best_gpu_example_rounding:
  "score_value (loaded_device 1 0 31) < score_value (loaded_device 0 12 6)
   \<and> fst (select_best_gpu healthy
        (manager_of [loaded_device 0 12 6, loaded_device 1 0 31])) = Inr 1"
  by (simp add: select_best_gpu_def available_gpus_def manager_of_def loaded_device_scores
      score_value_def)
    (simp add: loaded_device_def)

text \<open>
  C3, as stated, says that among devices of equal minimal score the lowest device id
  is returned. The loop keeps the first device it meets, in the order in which the
  devices were registered; the command line \<^verbatim>\<open>--gpus 1,0\<close> registers device 1 before
  device 0, and then a tie between them returns device 1.
\<close>

theorem select_best_gpu_tie_not_lowest_id:
  "total_score (device 1 10 True) = total_score (device 0 10 True)
   \<and> fst (select_best_gpu healthy (manager_of [device 1 10 True, device 0 10 True])) = Inr 1"
  by (simp add: select_best_gpu_def available_gpus_def manager_of_def device_scores)
    (simp add: device_def)

text \<open>
  C3, amended: whenever some device is available and the score of every available
  device, \<open>queue_length * 10 + memory_usage_percent * 0.5 + utilization * 0.3\<close> as the
  code computes it in float arithmetic, is a finite float, select_best_gpu returns an
  available device whose score is minimal among the available devices; among the
  available devices of equal minimal score it returns the one registered first (every
  available device registered before it has a strictly larger score), which is the one
  with the lowest device id when the devices are registered in ascending order of
  their ids, as they are by default.
\<close>

theorem select_best_gpu_minimal:
  assumes dist: "distinct (map fst (gpu_status m))"
    and avail: "available_gpus m \<noteq> []"
    and fin: "\<forall>(h, t) \<in> set (gpu_status m). is_available t \<longrightarrow> finite_score t"
  shows "\<exists>g s. select_best_gpu probe m = (Inr g, m)
     \<and> (g, s) \<in> set (gpu_status m) \<and> is_available s
     \<and> (\<forall>(h, t) \<in> set (gpu_status m). is_available t \<longrightarrow> score_value s \<le> score_value t)
     \<and> (\<forall>(h, t) \<in> set (takeWhile (\<lambda>(h, t). h \<noteq> g)
            (filter (\<lambda>(h, t). is_available t) (gpu_status m))). score_value s < score_value t)
     \<and> (sorted (map fst (gpu_status m)) \<longrightarrow>
          (\<forall>(h, t) \<in> set (gpu_status m).
              is_available t \<and> score_value t = score_value s \<longrightarrow> g \<le> h))"
proof -
  let ?st = "gpu_status m"
  let ?fl = "filter (\<lambda>(h, t). is_available t) ?st"
  from select_best_gpu_first_min[OF dist avail fin, of probe] obtain g where
    sel: "select_best_gpu probe m = (Inr g, m)"
    and fm: "first_min (score_of ?st) (available_gpus m) g" by blast
  from fm obtain pre post where
    spl: "map fst ?fl = pre @ g # post"
    and pre: "\<forall>h\<in>set pre. score_of ?st g < score_of ?st h"
    and post: "\<forall>h\<in>set post. score_of ?st g \<le> score_of ?st h"
    unfolding first_min_def available_gpus_def by blast
  from spl obtain pre' s post' where
    fl: "?fl = pre' @ (g, s) # post'" and mp: "map fst pre' = pre" "map fst post' = post"
    by (auto simp: map_eq_append_conv map_eq_Cons_conv)
  have gs_fl: "(g, s) \<in> set ?fl" using fl by simp
  then have gs: "(g, s) \<in> set ?st" and av: "is_available s" by auto
  have scg: "score_of ?st g = score_value s"
    using score_of_member[OF dist gs] .
  have sub: "set ?fl \<subseteq> set ?st" by auto
  have sc: "score_of ?st h = score_value t" if "(h, t) \<in> set ?fl" for h t
    using score_of_member[OF dist] that sub by blast
  have dfl: "distinct (map fst ?fl)"
    using dist by (rule distinct_map_filter)
  have pre_gt: "score_value s < score_value t" if "(h, t) \<in> set pre'" for h t
  proof -
    have "h \<in> set pre" using that mp by force
    moreover have "(h, t) \<in> set ?fl" using that fl by simp
    ultimately show ?thesis using pre sc scg by metis
  qed
  have post_ge: "score_value s \<le> score_value t" if "(h, t) \<in> set post'" for h t
  proof -
    have "h \<in> set post" using that mp by force
    moreover have "(h, t) \<in> set ?fl" using that fl by simp
    ultimately show ?thesis using post sc scg by metis
  qed
  have min: "score_value s \<le> score_value t"
    if "(h, t) \<in> set ?st" "is_available t" for h t
  proof -
    have "(h, t) \<in> set ?fl" using that by simp
    then have "(h, t) \<in> set pre' \<or> (h, t) = (g, s) \<or> (h, t) \<in> set post'"
      unfolding fl by auto
    then show ?thesis using pre_gt post_ge by fastforce
  qed
  have g_notin_pre: "g \<notin> fst ` set pre'"
    using dfl unfolding fl by auto
  have tw: "takeWhile (\<lambda>(h, t). h \<noteq> g) ?fl = pre'"
    unfolding fl using g_notin_pre
    by (subst takeWhile_append2) (auto simp: rev_image_eqI)
  have low: "g \<le> h"
    if srt: "sorted (map fst ?st)" and mem: "(h, t) \<in> set ?st" "is_available t"
      and eq: "score_value t = score_value s" for h t
  proof -
    have "sorted (map fst ?fl)" using srt by (rule sorted_filter)
    then have "\<forall>x\<in>set post. g \<le> x"
      unfolding spl by (simp add: sorted_append)
    moreover have "(h, t) \<in> set ?fl" using mem by simp
    then have "(h, t) \<in> set pre' \<or> (h, t) = (g, s) \<or> (h, t) \<in> set post'"
      unfolding fl by auto
    moreover have "(h, t) \<notin> set pre'" using pre_gt eq by fastforce
    moreover have "h \<in> set post" if "(h, t) \<in> set post'" using that mp by force
    ultimately show ?thesis by auto
  qed
  show ?thesis
    apply (rule exI[of _ g], rule exI[of _ s])
    using sel gs av min pre_gt low unfolding tw by blast
qed

theorem select_best_gpu_minimal_witness:
  "distinct (map fst (gpu_status (manager_of [device 0 10 True, device 1 10 True])))
   \<and> available_gpus (manager_of [device 0 10 True, device 1 10 True]) \<noteq> []
   \<and> finite_score (device 0 10 True) \<and> finite_score (device 1 10 True)
   \<and> sorted (map fst (gpu_status (manager_of [device 0 10 True, device 1 10 True])))
   \<and> fst (select_best_gpu healthy (manager_of [device 0 10 True, device 1 10 True])) = Inr 0"
  using select_best_gpu_minimal
    [of "manager_of [device 0 10 True, device 1 10 True]" healthy]
  by (simp add: select_best_gpu_def available_gpus_def manager_of_def device_scores
      finite_score_def)
    (simp add: device_def)

subsection \<open>C8: a faulted device stays excluded until a probe of it succeeds\<close>

lemmas eval_manager = select_best_gpu_def check_gpu_health_def modify_def handle_gpu_error_def
  recover_gpu_def available_gpus_def manager_of_def device_def eval_float
  memory_usage_percent_def healthy_def broken_def healthy_except_def monitor_update_def

lemma mem_avail_modify:
  "g \<in> fst ` set (filter (\<lambda>(g, s). is_available s) (modify h f st)) \<longleftrightarrow>
     (\<exists>s. (g, s) \<in> set st \<and> is_available (if g = h then f s else s))"
proof (induction st)
  case Nil
  then show ?case by (simp add: modify_def)
next
  case (Cons x st)
  obtain k v where x: "x = (k, v)" by (cases x)
  have m: "modify h f (x # st) = (if k = h then (k, f v) else (k, v)) # modify h f st"
    by (simp add: modify_def x)
  show ?case
    unfolding m using Cons.IH x by (cases "k = h"; cases "g = k") auto
qed

lemma mem_available:
  "g \<in> set (available_gpus m) \<longleftrightarrow> (\<exists>s. (g, s) \<in> set (gpu_status m) \<and> is_available s)"
  by (force simp: available_gpus_def)

lemma check_fold_keeps_unavailable:
  assumes "\<not> probe g"
    and "\<forall>s. (g, s) \<in> set st \<longrightarrow> \<not> is_available s"
  shows "\<forall>s. (g, s) \<in> set (fold (\<lambda>h st. modify h (\<lambda>s. s\<lparr>is_available := probe h\<rparr>) st) ks st)
           \<longrightarrow> \<not> is_available s"
  using assms(2)
proof (induction ks arbitrary: st)
  case Nil
  then show ?case by simp
next
  case (Cons k ks)
  have "\<forall>s. (g, s) \<in> set (modify k (\<lambda>s. s\<lparr>is_available := probe k\<rparr>) st) \<longrightarrow> \<not> is_available s"
  proof (intro allI impI)
    fix s assume "(g, s) \<in> set (modify k (\<lambda>s. s\<lparr>is_available := probe k\<rparr>) st)"
    then obtain s0 where s0: "(g, s0) \<in> set st"
      and s: "s = (if g = k then s0\<lparr>is_available := probe k\<rparr> else s0)"
      by (auto simp: modify_def split: if_splits)
    show "\<not> is_available s"
      using Cons.prems s0 s assms(1) by (cases "g = k") auto
  qed
  from Cons.IH[OF this] show ?case by simp
qed

lemma check_gpu_health_keeps_unavailable:
  assumes "\<not> probe g" and "g \<notin> set (available_gpus m)"
  shows "g \<notin> set (available_gpus (check_gpu_health probe m))"
proof -
  have "\<forall>s. (g, s) \<in> set (gpu_status m) \<longrightarrow> \<not> is_available s"
    using assms(2) by (auto simp: mem_available)
  with assms(1) have "\<forall>s. (g, s) \<in> set (fold (\<lambda>h st. modify h (\<lambda>s. s\<lparr>is_available := probe h\<rparr>) st)
      (map fst (gpu_instances m)) (gpu_status m)) \<longrightarrow> \<not> is_available s"
    by (rule check_fold_keeps_unavailable)
  then show ?thesis
    by (auto simp: mem_available check_gpu_health_def)
qed

lemma handle_gpu_error_unavailable:
  "g \<notin> set (available_gpus (handle_gpu_error g m))"
  using mem_avail_modify[of g g "\<lambda>s. s\<lparr>is_available := False\<rparr>" "gpu_status m"]
  by (simp add: available_gpus_def handle_gpu_error_def)

lemma handle_gpu_error_keeps_unavailable:
  assumes "g \<notin> set (available_gpus m)"
  shows "g \<notin> set (available_gpus (handle_gpu_error h m))"
proof
  assume "g \<in> set (available_gpus (handle_gpu_error h m))"
  then have "\<exists>s. (g, s) \<in> set (gpu_status m)
      \<and> is_available (if g = h then s\<lparr>is_available := False\<rparr> else s)"
    using mem_avail_modify[of g h "\<lambda>s. s\<lparr>is_available := False\<rparr>" "gpu_status m"]
    by (simp add: available_gpus_def handle_gpu_error_def)
  then obtain s where "(g, s) \<in> set (gpu_status m)" "is_available s"
    by (auto split: if_splits)
  then show False using assms mem_available by blast
qed

lemma modify_keeps_available:
  assumes "\<And>s. is_available (f s) = is_available s"
  shows "map fst (filter (\<lambda>(g, status). is_available status) (modify h f st))
        = map fst (filter (\<lambda>(g, status). is_available status) st)"
proof (induction st)
  case Nil
  then show ?case by (simp add: modify_def)
next
  case (Cons x st)
  obtain k v where x: "x = (k, v)" by (cases x)
  have m: "modify h f (x # st) = (if k = h then (k, f v) else (k, v)) # modify h f st"
    by (simp add: modify_def x)
  show ?case
    unfolding m using Cons.IH x assms by simp
qed

lemma monitor_update_available:
  "available_gpus (monitor_update g mem util now m) = available_gpus m"
proof (cases "map_of (gpu_queues m) g")
  case None
  then show ?thesis by (simp add: monitor_update_def)
next
  case (Some n)
  have "available_gpus (m\<lparr>gpu_status := modify g (\<lambda>s. s\<lparr>memory_used := mem, utilization := util,
           queue_length := int n, last_updated := now\<rparr>) (gpu_status m)\<rparr>) = available_gpus m"
    unfolding available_gpus_def by (simp add: modify_keeps_available)
  then show ?thesis using Some by (simp add: monitor_update_def)
qed

lemma best_loop_member:
  "best_loop st gs bg bs = Inr (Some r) \<Longrightarrow> r \<in> set gs \<or> bg = Some r"
  by (induction gs arbitrary: bg bs) (auto split: option.splits sum.splits if_splits)

lemma select_best_gpu_result:
  assumes "select_best_gpu probe m = (Inr r, m')"
  shows "r \<in> set (available_gpus m')
         \<and> (m' = m \<or> (available_gpus m = [] \<and> m' = check_gpu_health probe m))"
proof -
  define m1 where "m1 = (if available_gpus m = [] then check_gpu_health probe m else m)"
  have m': "m' = m1" and ne: "available_gpus m1 \<noteq> []"
    using assms unfolding select_best_gpu_def m1_def
    by (auto simp: Let_def split: if_splits sum.splits option.splits list.splits)
  have "r \<in> set (available_gpus m1)"
    using assms best_loop_member[of "gpu_status m1" "available_gpus m1" None PosInf r]
    unfolding select_best_gpu_def m1_def[symmetric]
    by (auto simp: Let_def split: if_splits sum.splits option.splits list.splits)
  then show ?thesis using m' by (auto simp: m1_def split: if_splits)
qed

lemma select_best_gpu_state:
  "snd (select_best_gpu probe m) = m
   \<or> snd (select_best_gpu probe m) = check_gpu_health probe m"
  by (auto simp: select_best_gpu_def Let_def split: sum.splits option.splits list.splits)

lemma apply_op_keeps_unavailable:
  assumes "g \<notin> set (available_gpus m)" and "\<not> probe_succeeds op g"
  shows "fst (apply_op op m) \<noteq> Some g \<and> g \<notin> set (available_gpus (snd (apply_op op m)))"
proof (cases op)
  case (Monitor h mem util now)
  then show ?thesis using assms by (simp add: monitor_update_available)
next
  case (Selection probe)
  have st: "g \<notin> set (available_gpus (snd (select_best_gpu probe m)))"
    using select_best_gpu_state[of probe m] assms Selection
    by (auto simp: check_gpu_health_keeps_unavailable)
  obtain r m' where r: "select_best_gpu probe m = (r, m')" by (cases "select_best_gpu probe m")
  show ?thesis
  proof (cases r)
    case (Inl e)
    then show ?thesis using st r Selection by simp
  next
    case (Inr x)
    then have "x \<in> set (available_gpus m')" using select_best_gpu_result r by blast
    then have "x \<noteq> g" using st r by auto
    then show ?thesis using st r Inr Selection by simp
  qed
next
  case (Fault h)
  then show ?thesis using assms by (simp add: handle_gpu_error_keeps_unavailable)
next
  case (Recovery probe)
  have "available_gpus (m\<lparr>recovery_threads := ts\<rparr>) = available_gpus m" for ts
    by (simp add: available_gpus_def)
  then show ?thesis using assms Recovery
    by (auto simp: recover_gpu_def check_gpu_health_keeps_unavailable split: list.splits)
next
  case (HealthCheck probe)
  then show ?thesis using assms by (simp add: check_gpu_health_keeps_unavailable)
qed

lemma run_ops_keeps_unavailable:
  assumes "\<forall>op\<in>set ops. \<not> probe_succeeds op g" and "g \<notin> set (available_gpus m)"
  shows "g \<notin> set (fst (run_ops ops m)) \<and> g \<notin> set (available_gpus (snd (run_ops ops m)))"
  using assms
proof (induction ops arbitrary: m)
  case Nil
  then show ?case by simp
next
  case (Cons op ops)
  obtain sel m' where a: "apply_op op m = (sel, m')" by (cases "apply_op op m")
  from apply_op_keeps_unavailable[of g m op] Cons.prems a
  have s: "sel \<noteq> Some g" and u: "g \<notin> set (available_gpus m')" by auto
  from Cons.IH[OF _ u] Cons.prems
  have "g \<notin> set (fst (run_ops ops m')) \<and> g \<notin> set (available_gpus (snd (run_ops ops m')))"
    by simp
  then show ?case using a s by (auto split: prod.splits option.splits)
qed

lemma recover_gpu_threads:
  "recovery_threads (recover_gpu probe m) = tl (recovery_threads m)"
  by (simp add: recover_gpu_def check_gpu_health_def split: list.splits)

text \<open>
  After the fault the device is selected again once a health check succeeds on it: here
  device 0 is skipped by the first selection and, after a successful recovery, chosen
  by the second for its lower score.
\<close>

lemma recovery_restores_device:
  "fst (run_ops [Selection broken, Recovery healthy, Selection broken]
      (handle_gpu_error 0 (manager_of [device 0 2 True, device 1 4 True]))) = [1, 0]"
  by (simp add: eval_manager)

text \<open>
  C8: after \<^verbatim>\<open>_handle_gpu_error\<close> for device \<open>g\<close> the device is unavailable, and
  through every sequence of manager operations (monitor cycles, selections, further
  faults, recovery threads, health checks) in which no probe succeeds on \<open>g\<close>, no
  selection returns \<open>g\<close> and \<open>g\<close> stays unavailable. The handler starts exactly one
  recovery thread, for \<open>g\<close>; when that thread has run, whatever its probe found, the
  number of pending recovery threads is what it was before the fault: the thread
  schedules no further attempt.
\<close>

theorem fault_excludes_device:
  assumes "\<forall>op\<in>set ops. \<not> probe_succeeds op g"
  shows "g \<notin> set (available_gpus (handle_gpu_error g m))
     \<and> g \<notin> set (fst (run_ops ops (handle_gpu_error g m)))
     \<and> g \<notin> set (available_gpus (snd (run_ops ops (handle_gpu_error g m))))
     \<and> recovery_threads (handle_gpu_error g m) = recovery_threads m @ [g]
     \<and> length (recovery_threads (recover_gpu probe (handle_gpu_error g m)))
         = length (recovery_threads m)"
  using run_ops_keeps_unavailable[OF assms handle_gpu_error_unavailable, of m]
    handle_gpu_error_unavailable[of g m]
  by (simp add: recover_gpu_threads) (simp add: handle_gpu_error_def)


theorem fault_excludes_device_witness:
  "\<not> probe_succeeds (Selection (healthy_except 0)) 0
   \<and> \<not> probe_succeeds (Recovery (healthy_except 0)) 0
   \<and> fst (run_ops
        [Selection (healthy_except 0), Recovery (healthy_except 0), Selection (healthy_except 0)]
        (handle_gpu_error 0 (manager_of [device 0 2 True, device 1 4 True]))) = [1, 1]
   \<and> 0 \<notin> set (available_gpus (snd (run_ops
        [Selection (healthy_except 0), Recovery (healthy_except 0), Selection (healthy_except 0)]
        (handle_gpu_error 0 (manager_of [device 0 2 True, device 1 4 True])))))
   \<and> recovery_threads (handle_gpu_error 0 (manager_of [device 0 2 True, device 1 4 True])) = [0]"
  using fault_excludes_device
    [of "[Selection (healthy_except 0), Recovery (healthy_except 0),
          Selection (healthy_except 0)]" 0
        "manager_of [device 0 2 True, device 1 4 True]" "healthy_except 0"]
  by (simp add: eval_manager)

subsection \<open>C9: range of the memory usage percentage\<close>

text \<open>
  C9, as stated, asks that the usage percentage of every GPUStatus lies in [0,100].
  The property of the source divides and scales without clamping, so a status whose
  used memory exceeds its total memory has a percentage above 100: with 10 GB used of
  8 GB the percentage is 125.
\<close>

theorem memory_usage_percent_above_100:
  "memory_usage_percent
     \<lparr>gpu_id = 0, device_name = ''GPU'', memory_used = 10, memory_total = 8,
      utilization = 0, queue_length = 0, is_available = True, last_updated = 0\<rparr> = 125
   \<and> \<not> (memory_usage_percent
     \<lparr>gpu_id = 0, device_name = ''GPU'', memory_used = 10, memory_total = 8,
      utilization = 0, queue_length = 0, is_available = True, last_updated = 0\<rparr> \<le> 100)"
  by (simp add: memory_usage_percent_def)

text \<open>
  C9, amended: for every GPUStatus whose used memory lies between 0 and its total
  memory, the usage percentage lies in [0,100]; and for every GPUStatus whose total
  memory is 0 (or negative) the usage percentage is 0.
\<close>

theorem memory_usage_percent_range:
  "(0 \<le> memory_used s \<and> memory_used s \<le> memory_total s \<longrightarrow>
      0 \<le> memory_usage_percent s \<and> memory_usage_percent s \<le> 100)
   \<and> (memory_total s \<le> 0 \<longrightarrow> memory_usage_percent s = 0)"
proof -
  have "memory_usage_percent s \<le> 100"
    if "0 \<le> memory_used s" "memory_used s \<le> memory_total s"
  proof (cases "memory_total s > 0")
    case True
    then show ?thesis
      using that by (simp add: memory_usage_percent_def field_simps)
  next
    case False
    then show ?thesis by (simp add: memory_usage_percent_def)
  qed
  moreover have "0 \<le> memory_usage_percent s" if "0 \<le> memory_used s"
    using that by (simp add: memory_usage_percent_def)
  ultimately show ?thesis
    by (simp add: memory_usage_percent_def)
qed

theorem memory_usage_percent_range_witness:
  "(0::real) \<le> 2 \<and> (2::real) \<le> 8
   \<and> 0 \<le> memory_usage_percent
     \<lparr>gpu_id = 0, device_name = ''GPU'', memory_used = 2, memory_total = 8,
      utilization = 0, queue_length = 0, is_available = True, last_updated = 0\<rparr>
   \<and> memory_usage_percent
     \<lparr>gpu_id = 0, device_name = ''GPU'', memory_used = 2, memory_total = 8,
      utilization = 0, queue_length = 0, is_available = True, last_updated = 0\<rparr> \<le> 100
   \<and> memory_usage_percent
     \<lparr>gpu_id = 1, device_name = ''GPU 1 (Error)'', memory_used = 0, memory_total = 0,
      utilization = 0, queue_length = 0, is_available = False, last_updated = 0\<rparr> = 0"
  using memory_usage_percent_range
    [of "\<lparr>gpu_id = 0, device_name = ''GPU'', memory_used = 2, memory_total = 8,
      utilization = 0, queue_length = 0, is_available = True, last_updated = 0\<rparr>"]
    memory_usage_percent_range
    [of "\<lparr>gpu_id = 1, device_name = ''GPU 1 (Error)'', memory_used = 0, memory_total = 0,
      utilization = 0, queue_length = 0, is_available = False, last_updated = 0\<rparr>"]
  by simp

subsection \<open>C10: the script formatting step\<close>

lemma format_lines_enumerate:
  "format_lines n lines acc =
     acc @ map (\<lambda>(k, l). expected_line n k l)
             (enumerate (length acc) (filter (\<lambda>l. l \<noteq> []) (map strip lines)))"
proof (induction lines arbitrary: acc)
  case Nil
  then show ?case by simp
next
  case (Cons line lines)
  show ?case
  proof (cases "strip line = []")
    case True
    then show ?thesis using Cons.IH[of acc] by simp
  next
    case False
    have "format_lines n (line # lines) acc
          = format_lines n lines (acc @ [expected_line n (length acc) (strip line)])"
      using False by (simp add: expected_line_def Let_def)
    then show ?thesis
      using False Cons.IH[of "acc @ [expected_line n (length acc) (strip line)]"] by simp
  qed
qed

lemma formatted_script_lines_eq:
  "formatted_script_lines n scr =
     map (\<lambda>(k, l). expected_line n k l) (enumerate 0 (nonblank_lines scr))"
  using format_lines_enumerate[of n "split 0x0A (strip scr)" "[]"]
  by (simp add: formatted_script_lines_def nonblank_lines_def)

lemma expected_line_prefix: "prefix (lit ''Speaker '') (expected_line n k line)"
  by (simp add: expected_line_def has_speaker_format_def)

lemma split_pieces_no_sep: "\<forall>l\<in>set (split sep s). sep \<notin> set l"
  by (induction s) (auto split: list.splits)

lemma split_none: "sep \<notin> set l \<Longrightarrow> split sep l = [l]"
  by (induction l) auto

lemma split_append_sep: "sep \<notin> set l \<Longrightarrow> split sep (l @ sep # r) = l # split sep r"
  by (induction l) auto

lemma split_join:
  "ls \<noteq> [] \<Longrightarrow> \<forall>l\<in>set ls. sep \<notin> set l \<Longrightarrow> split sep (join [sep] ls) = ls"
proof (induction "[sep]" ls rule: join.induct)
  case 1
  then show ?case by simp
next
  case (2 l)
  then show ?case by (simp add: split_none)
next
  case (3 l v va)
  then show ?case by (simp add: split_append_sep)
qed

lemma kept_by_dropWhile: "c \<in> set l \<Longrightarrow> \<not> P c \<Longrightarrow> c \<in> set (dropWhile P l)"
  by (induction l) auto

lemma kept_by_strip: "c \<in> set l \<Longrightarrow> \<not> isspace c \<Longrightarrow> c \<in> set (strip l)"
  by (simp add: strip_def kept_by_dropWhile)

lemma strip_subset: "set (strip l) \<subseteq> set l"
proof
  fix c assume "c \<in> set (strip l)"
  then have "c \<in> set (dropWhile isspace (rev (dropWhile isspace l)))"
    by (simp add: strip_def)
  then have "c \<in> set (rev (dropWhile isspace l))" by (rule set_dropWhileD)
  then have "c \<in> set (dropWhile isspace l)" by simp
  then show "c \<in> set l" by (rule set_dropWhileD)
qed

lemma strip_has_nonspace: "strip s \<noteq> [] \<Longrightarrow> \<exists>c\<in>set s. \<not> isspace c"
proof -
  assume "strip s \<noteq> []"
  then have ne: "dropWhile isspace s \<noteq> []"
    by (cases "dropWhile isspace s = []") (simp_all add: strip_def)
  then have "\<not> isspace (hd (dropWhile isspace s))" by (rule hd_dropWhile)
  moreover have "hd (dropWhile isspace s) \<in> set s"
    using ne by (meson hd_in_set set_dropWhileD)
  ultimately show ?thesis by blast
qed

lemma in_some_piece: "c \<in> set s \<Longrightarrow> c \<noteq> sep \<Longrightarrow> \<exists>l\<in>set (split sep s). c \<in> set l"
  by (induction s) (auto split: list.splits)

lemma nonblank_lines_nonempty:
  assumes "strip scr \<noteq> []"
  shows "nonblank_lines scr \<noteq> []"
proof -
  from strip_has_nonspace[OF assms] obtain c where c: "c \<in> set scr" "\<not> isspace c" by blast
  then have "c \<in> set (strip scr)" by (simp add: kept_by_strip)
  moreover have "c \<noteq> 0x0A" using c(2) by (auto simp: isspace_def)
  ultimately obtain l where l: "l \<in> set (split 0x0A (strip scr))" "c \<in> set l"
    using in_some_piece by blast
  then have "c \<in> set (strip l)" using c(2) by (simp add: kept_by_strip)
  then have "strip l \<noteq> []" by auto
  then have "strip l \<in> set (nonblank_lines scr)"
    using l(1) by (simp add: nonblank_lines_def)
  then show ?thesis by auto
qed

lemma lit_no_newline: "0x0A \<notin> set (lit ''Speaker '') \<and> 0x0A \<notin> set (lit '': '')"
  by (simp add: lit_def)

lemma str_int_digit: "0 \<le> i \<Longrightarrow> i < 10 \<Longrightarrow> str_int i = [48 + nat i]"
  by (simp add: str_int_def digits.simps)

lemma nonblank_line_no_newline: "l \<in> set (nonblank_lines scr) \<Longrightarrow> 0x0A \<notin> set l"
  using split_pieces_no_sep[of "0x0A" "strip scr"] strip_subset
  by (auto simp: nonblank_lines_def)

lemma expected_line_no_newline:
  assumes "1 \<le> n" "n \<le> 4" "0x0A \<notin> set l"
  shows "0x0A \<notin> set (expected_line n k l)"
proof -
  have "int k mod n < n" using assms by (intro pos_mod_bound) simp
  then have "int k mod n < 10" using assms(2) by linarith
  moreover have "0 \<le> int k mod n" using assms(1) by simp
  ultimately have "0 \<le> int k mod n" "int k mod n < 10" by blast+
  then have "str_int (int k mod n) = [48 + nat (int k mod n)]" by (rule str_int_digit)
  then show ?thesis using assms(3) lit_no_newline by (simp add: expected_line_def)
qed

lemma formatted_lines_no_newline:
  assumes "1 \<le> n" "n \<le> 4"
  shows "\<forall>l\<in>set (formatted_script_lines n scr). 0x0A \<notin> set l"
proof
  fix l assume "l \<in> set (formatted_script_lines n scr)"
  then obtain k l0 where "l = expected_line n k l0" "l0 \<in> set (nonblank_lines scr)"
    by (auto simp: formatted_script_lines_eq in_set_enumerate_eq)
  then show "0x0A \<notin> set l"
    using expected_line_no_newline[OF assms] nonblank_line_no_newline by blast
qed

lemma formatted_script_split:
  assumes "1 \<le> n" "n \<le> 4" "strip scr \<noteq> []"
  shows "split 0x0A (formatted_script n scr) = formatted_script_lines n scr"
proof -
  have "length (formatted_script_lines n scr) = length (nonblank_lines scr)"
    by (simp add: formatted_script_lines_eq)
  then have "formatted_script_lines n scr \<noteq> []"
    using nonblank_lines_nonempty[OF assms(3)] by auto
  then show ?thesis
    using split_join[of "formatted_script_lines n scr" "0x0A"]
      formatted_lines_no_newline[OF assms(1,2)]
    by (simp add: formatted_script_def lit_def)
qed

lemma formatted_script_lines_nth:
  assumes "i < length (nonblank_lines scr)"
  shows "formatted_script_lines n scr ! i = expected_line n i (nonblank_lines scr ! i)"
  using assms by (simp add: formatted_script_lines_eq nth_enumerate_eq)

text \<open>
  C10: for every script and every num_speakers in [1,4], the formatted lines are, one
  for one and in order, the non-blank lines of the script after stripping (blank lines
  are dropped). A line that starts with \<open>Speaker \<close> and contains a colon is kept as it
  is; any other line number \<open>i\<close> (counting the lines formatted before it from 0) gets
  the prefix \<open>Speaker k: \<close> with \<open>k = i mod num_speakers\<close>, which lies in
  [0, num_speakers - 1]. So every formatted line starts with \<open>Speaker \<close>, and for a
  script that is not blank the text handed to the processor splits at newlines into
  exactly these lines.
\<close>

theorem format_script:
  assumes "1 \<le> n" and "n \<le> 4"
  shows "length (formatted_script_lines n scr) = length (nonblank_lines scr)
     \<and> (\<forall>i < length (nonblank_lines scr).
          formatted_script_lines n scr ! i =
            (if has_speaker_format (nonblank_lines scr ! i) then nonblank_lines scr ! i
             else lit ''Speaker '' @ str_int (int i mod n) @ lit '': ''
                    @ nonblank_lines scr ! i)
          \<and> 0 \<le> int i mod n \<and> int i mod n \<le> n - 1
          \<and> prefix (lit ''Speaker '') (formatted_script_lines n scr ! i))
     \<and> (strip scr \<noteq> [] \<longrightarrow>
          split 0x0A (formatted_script n scr) = formatted_script_lines n scr)"
proof -
  have len: "length (formatted_script_lines n scr) = length (nonblank_lines scr)"
    by (simp add: formatted_script_lines_eq)
  have "int i mod n < n" for i using assms(1) by (intro pos_mod_bound) simp
  then have rng: "0 \<le> int i mod n \<and> int i mod n \<le> n - 1" for i
    using assms(1) by (simp add: zle_diff1_eq)
  show ?thesis
    using len rng expected_line_prefix[of n] formatted_script_split[OF assms, of scr]
    by (simp add: formatted_script_lines_nth) (simp add: expected_line_def)
qed

theorem format_script_witness:
  "(1::int) \<le> 2 \<and> (2::int) \<le> 4
   \<and> formatted_script_lines 2 (lit ''hi\<newline>\<newline>Speaker 1: x \<newline>  there '')
       = [lit ''Speaker 0: hi'', lit ''Speaker 1: x'', lit ''Speaker 0: there'']
   \<and> nonblank_lines (lit ''hi\<newline>\<newline>Speaker 1: x \<newline>  there '')
       = [lit ''hi'', lit ''Speaker 1: x'', lit ''there'']"
  using format_script [of 2 "lit ''hi\<newline>\<newline>Speaker 1: x \<newline>  there ''"]
  by (simp add: formatted_script_lines_def nonblank_lines_def lit_def strip_def isspace_def
      has_speaker_format_def str_int_def digits.simps)

subsection \<open>The drain loop and the trace of a session\<close>

lemma streamed_audio_append: "streamed_audio (xs @ ys) = streamed_audio xs @ streamed_audio ys"
  by (induction xs rule: streamed_audio.induct) simp_all





lemma finish_no_flush: "filter is_flush (fst (finish alive stop_called d s)) = []"
  by (simp add: finish_def Let_def)

lemma startup_no_flush: "filter is_flush (startup req) = []"
  by (simp add: startup_def)

text \<open>The body of the drain loop as one case distinction.\<close>

lemma drain_step_cases:
  "drain_step now a s =
     (if (\<not> has_yielded_audio s \<and> min_chunk_size \<le> total_samples (pending_chunks s @ [a]))
         \<or> (has_yielded_audio s
             \<and> (min_chunk_size \<le> total_samples (pending_chunks s @ [a])
                 \<or> fge (fsub (Finite now) (Finite (last_yield_time s)))
                      (Finite min_yield_interval)))
      then ([Yield (StreamingAudio (concat (pending_chunks s @ [a]))
                      (total_samples (all_audio_chunks s @ [a])) (chunk_count s + 1))],
            s\<lparr>chunk_count := chunk_count s + 1, has_received_chunks := True,
              all_audio_chunks := all_audio_chunks s @ [a],
              pending_chunks := [], has_yielded_audio := True, last_yield_time := now\<rparr>)
      else ([], s\<lparr>chunk_count := chunk_count s + 1, has_received_chunks := True,
                  all_audio_chunks := all_audio_chunks s @ [a],
                  pending_chunks := pending_chunks s @ [a]\<rparr>))"
  by (simp add: drain_step_def Let_def)

lemma drain_step_facts:
  assumes "drain_step now a s = (out, s')"
  shows "streamed_audio out @ concat (pending_chunks s') = concat (pending_chunks s) @ a"
    and "all_audio_chunks s' = all_audio_chunks s @ [a]"
    and "chunk_count s' = chunk_count s + 1"
    and "has_received_chunks s'"
    and "has_yielded_audio s' \<or> pending_chunks s' \<noteq> []"
    and "\<forall>x\<in>set out. is_flush x"
  using assms by (auto simp: drain_step_cases split: if_splits)

lemma filter_flush_step: "filter is_flush (fst (drain_step now a s)) = fst (drain_step now a s)"
  by (simp add: drain_step_cases)

lemma drain_loop_chunk:
  "\<not> stop_generation d \<Longrightarrow>
     fst (drain_loop (Chunk False now a # rest) d s)
       = fst (drain_step now a s) @ fst (drain_loop rest d (snd (drain_step now a s)))"
  by (simp add: poll_def case_prod_beta)

lemma drain_loop_flushes_chunk:
  "\<not> stop_generation d \<Longrightarrow>
     filter is_flush (fst (drain_loop (Chunk False now a # rest) d s))
       = fst (drain_step now a s)
         @ filter is_flush (fst (drain_loop rest d (snd (drain_step now a s))))"
  by (simp add: drain_loop_chunk filter_flush_step del: drain_loop.simps)


text \<open>
  What a run of the drain loop leaves behind: the audio flushed and the audio still
  buffered are together the audio received, and the output consists of flushes,
  followed by the end of the streamer when the loop was left by \<^verbatim>\<open>break\<close>.
\<close>

lemma drain_loop_facts:
  assumes "\<not> stop_generation d" and "drain_loop items d s = (out, d', s', ex)"
  shows "ex = stream_outcome items
    \<and> streamed_audio out @ concat (pending_chunks s')
        = concat (pending_chunks s) @ concat (received_chunks items)
    \<and> all_audio_chunks s' = all_audio_chunks s @ received_chunks items
    \<and> chunk_count s' = chunk_count s + length (received_chunks items)
    \<and> has_received_chunks s' = (has_received_chunks s \<or> received_chunks items \<noteq> [])
    \<and> (buffered s \<longrightarrow> buffered s')
    \<and> stop_generation d' = (ex = Broken)
    \<and> (\<exists>fs. (\<forall>x\<in>set fs. is_flush x) \<and> out = fs @ (if ex = Broken then [EndStreamer] else []))"
  using assms
proof (induction items arbitrary: d s out d' s' ex)
  case Nil
  then show ?case by auto
next
  case (Cons item items)
  show ?case
  proof (cases item)
    case StreamError
    then show ?thesis using Cons.prems by auto
  next
    case (Chunk stop_called now a)
    show ?thesis
    proof (cases stop_called)
      case True
      then show ?thesis using Cons.prems Chunk
        by (auto simp: poll_def stop_audio_generation_def)
    next
      case False
      obtain o1 s1 where st: "drain_step now a s = (o1, s1)" by (cases "drain_step now a s")
      obtain o2 d2 s2 e2 where lp: "drain_loop items d s1 = (o2, d2, s2, e2)"
        by (cases "drain_loop items d s1") auto
      have res: "out = o1 @ o2" "d' = d2" "s' = s2" "ex = e2"
        using Cons.prems Chunk False st lp by (auto simp: poll_def)
      note ih = Cons.IH[OF Cons.prems(1) lp]
      note sf = drain_step_facts[OF st]
      from ih obtain fs where fs: "\<forall>x\<in>set fs. is_flush x"
        "o2 = fs @ (if e2 = Broken then [EndStreamer] else [])" by blast
      have "\<exists>fs'. (\<forall>x\<in>set fs'. is_flush x)
          \<and> out = fs' @ (if ex = Broken then [EndStreamer] else [])"
        by (rule exI[of _ "o1 @ fs"]) (use fs sf(6) res in auto)
      moreover have "streamed_audio out @ concat (pending_chunks s')
          = concat (pending_chunks s) @ concat (received_chunks (item # items))"
      proof -
        have "streamed_audio out @ concat (pending_chunks s')
            = streamed_audio o1 @ (streamed_audio o2 @ concat (pending_chunks s2))"
          using res by (simp add: streamed_audio_append)
        also have "\<dots> = streamed_audio o1 @ concat (pending_chunks s1)
            @ concat (received_chunks items)"
          using ih by simp
        also have "\<dots> = concat (pending_chunks s) @ a @ concat (received_chunks items)"
          using sf(1) by (metis append.assoc)
        finally show ?thesis using Chunk False by simp
      qed
      moreover have "buffered s1" using sf(4,5) by (simp add: buffered_def)
      ultimately show ?thesis
        using ih sf(2,3,4) res Chunk False by simp
    qed
  qed
qed

text \<open>
  Before the first flush: the loop flushes nothing as long as the buffer stays below
  \<open>min_chunk_size\<close>, and its first flush comes with the chunk that takes the buffer
  to \<open>min_chunk_size\<close>.
\<close>

lemma first_flush_general:
  assumes ns: "\<not> stop_generation d"
    and ny: "\<not> has_yielded_audio s"
    and lt: "total_samples (pending_chunks s) < min_chunk_size"
  shows "(filter is_flush (fst (drain_loop items d s)) = [] \<longleftrightarrow>
           total_samples (pending_chunks s @ received_chunks items) < min_chunk_size)
    \<and> (filter is_flush (fst (drain_loop items d s)) \<noteq> [] \<longrightarrow>
         (\<exists>k. 0 < k \<and> k \<le> length (received_chunks items)
            \<and> total_samples (pending_chunks s @ take (k - 1) (received_chunks items))
                 < min_chunk_size
            \<and> min_chunk_size
                 \<le> total_samples (pending_chunks s @ take k (received_chunks items))
            \<and> hd (filter is_flush (fst (drain_loop items d s))) =
                 Yield (StreamingAudio
                   (concat (pending_chunks s @ take k (received_chunks items)))
                   (total_samples (all_audio_chunks s @ take k (received_chunks items)))
                   (chunk_count s + k))))"
  using ny lt
proof (induction items arbitrary: s)
  case Nil
  then show ?case by simp
next
  case (Cons item items)
  show ?case
  proof (cases item)
    case StreamError
    then show ?thesis using Cons.prems by simp
  next
    case (Chunk stop_called now a)
    show ?thesis
    proof (cases stop_called)
      case True
      then show ?thesis using Chunk Cons.prems
        by (simp add: poll_def stop_audio_generation_def)
    next
      case False
      have item: "item = Chunk False now a" using Chunk False by simp
      have rc: "received_chunks (item # items) = a # received_chunks items"
        using Chunk False by simp
      show ?thesis
      proof (cases "min_chunk_size \<le> total_samples (pending_chunks s @ [a])")
        case True
        have st: "fst (drain_step now a s) =
            [Yield (StreamingAudio (concat (pending_chunks s @ [a]))
                      (total_samples (all_audio_chunks s @ [a])) (chunk_count s + 1))]"
          using True Cons.prems(1) by (simp add: drain_step_cases)
        have fs: "filter is_flush (fst (drain_loop (item # items) d s)) =
            Yield (StreamingAudio (concat (pending_chunks s @ [a]))
                      (total_samples (all_audio_chunks s @ [a])) (chunk_count s + 1))
            # filter is_flush (fst (drain_loop items d (snd (drain_step now a s))))"
          unfolding item using ns st by (simp add: drain_loop_flushes_chunk del: drain_loop.simps)
        have ge: "\<not> total_samples (pending_chunks s @ received_chunks (item # items))
            < min_chunk_size"
          using True unfolding rc by (simp add: total_samples_def)
        have "\<exists>k. 0 < k \<and> k \<le> length (received_chunks (item # items))
            \<and> total_samples (pending_chunks s @ take (k - 1) (received_chunks (item # items)))
                 < min_chunk_size
            \<and> min_chunk_size
                 \<le> total_samples (pending_chunks s @ take k (received_chunks (item # items)))
            \<and> hd (filter is_flush (fst (drain_loop (item # items) d s))) =
                 Yield (StreamingAudio
                   (concat (pending_chunks s @ take k (received_chunks (item # items))))
                   (total_samples (all_audio_chunks s @ take k (received_chunks (item # items))))
                   (chunk_count s + k))"
          by (rule exI[of _ 1]) (simp add: rc fs True Cons.prems(2))
        moreover have "filter is_flush (fst (drain_loop (item # items) d s)) = [] \<longleftrightarrow>
           total_samples (pending_chunks s @ received_chunks (item # items)) < min_chunk_size"
          using ge by (simp add: fs)
        ultimately show ?thesis by blast
      next
        case nf: False
        let ?s1 = "s\<lparr>chunk_count := chunk_count s + 1, has_received_chunks := True,
                      all_audio_chunks := all_audio_chunks s @ [a],
                      pending_chunks := pending_chunks s @ [a]\<rparr>"
        have st: "drain_step now a s = ([], ?s1)"
          using nf Cons.prems(1) by (simp add: drain_step_cases)
        have eq: "filter is_flush (fst (drain_loop (item # items) d s))
            = filter is_flush (fst (drain_loop items d ?s1))"
          unfolding item using ns st by (simp add: drain_loop_flushes_chunk del: drain_loop.simps)
        have ny1: "\<not> has_yielded_audio ?s1" using Cons.prems(1) by simp
        have lt1: "total_samples (pending_chunks ?s1) < min_chunk_size" using nf by simp
        note ih = Cons.IH[OF ny1 lt1]
        have p1: "pending_chunks ?s1 @ xs = pending_chunks s @ a # xs" for xs by simp
        have a1: "all_audio_chunks ?s1 @ xs = all_audio_chunks s @ a # xs" for xs by simp
        have c1: "chunk_count ?s1 = chunk_count s + 1" by simp
        have iff: "filter is_flush (fst (drain_loop (item # items) d s)) = [] \<longleftrightarrow>
           total_samples (pending_chunks s @ received_chunks (item # items)) < min_chunk_size"
          using ih unfolding eq rc p1 by blast
        have ex: "\<exists>k. 0 < k \<and> k \<le> length (received_chunks (item # items))
            \<and> total_samples (pending_chunks s @ take (k - 1) (received_chunks (item # items)))
                 < min_chunk_size
            \<and> min_chunk_size
                 \<le> total_samples (pending_chunks s @ take k (received_chunks (item # items)))
            \<and> hd (filter is_flush (fst (drain_loop (item # items) d s))) =
                 Yield (StreamingAudio
                   (concat (pending_chunks s @ take k (received_chunks (item # items))))
                   (total_samples (all_audio_chunks s @ take k (received_chunks (item # items))))
                   (chunk_count s + k))"
          if ne: "filter is_flush (fst (drain_loop (item # items) d s)) \<noteq> []"
        proof -
          from ih ne[unfolded eq] obtain k where k: "0 < k" "k \<le> length (received_chunks items)"
            "total_samples (pending_chunks ?s1 @ take (k - 1) (received_chunks items))
                 < min_chunk_size"
            "min_chunk_size \<le> total_samples (pending_chunks ?s1 @ take k (received_chunks items))"
            "hd (filter is_flush (fst (drain_loop items d ?s1))) =
                 Yield (StreamingAudio
                   (concat (pending_chunks ?s1 @ take k (received_chunks items)))
                   (total_samples (all_audio_chunks ?s1 @ take k (received_chunks items)))
                   (chunk_count ?s1 + k))"
            by blast
          have tk: "take (Suc k) (a # xs) = a # take k xs" for xs :: "chunk list" by simp
          have tk1: "take (Suc k - 1) (a # xs) = a # take (k - 1) xs" for xs :: "chunk list"
            using k(1) by (cases k) simp_all
          show ?thesis
            apply (rule exI[of _ "Suc k"])
            unfolding rc eq tk tk1
            using k(1,2) k(3-5)[unfolded p1 a1 c1] by simp
        qed
        show ?thesis using iff ex by blast
      qed
    qed
  qed
qed

text \<open>The trace of a session that reaches the drain loop.\<close>

lemma try_body_streaming:
  assumes "reaches_streaming req env d"
  shows "try_body req env d =
           (case streaming_phase env (started d) of (out, r) \<Rightarrow> (startup req @ out, r))"
proof -
  from assms obtain sel where
    v: "validate req (d\<lparr>stop_generation := False, is_generating := True\<rparr>) = Inr sel"
    and l: "load_voices (voice_length env) sel = None"
    and st: "\<not> stop_after_validation env" "\<not> stop_after_voices env"
      "\<not> stop_before_processing env" "\<not> stop_after_start env" "\<not> engine_error env"
    by (auto simp: reaches_streaming_def split: sum.splits)
  show ?thesis
    unfolding try_body_def Let_def
    by (simp add: v l st poll_def started_def startup_def)
qed


lemma session_trace_raw:
  assumes reach: "reaches_streaming req env d"
    and lp: "drain_loop (stream env) (started d) (initial_drain_state (clock_start env))
              = (out, d1, s, ex)"
    and nr: "ex \<noteq> Raised"
  shows "fst (demo_generate_podcast_streaming req env d) =
      startup req @ out @ fst (finish (thread_alive env) (stop_at_end env) d1 s)"
proof -
  have sp: "streaming_phase env (started d) =
      (out @ fst (finish (thread_alive env) (stop_at_end env) d1 s),
       snd (finish (thread_alive env) (stop_at_end env) d1 s), None)"
    using lp nr by (cases ex) (simp_all add: streaming_phase_def split: prod.splits)
  show ?thesis
    by (simp add: demo_generate_podcast_streaming_def try_body_streaming[OF reach] sp)
qed



lemma session_shape:
  assumes reach: "reaches_streaming req env d"
  shows "\<exists>rest. filter is_flush rest = []
     \<and> fst (demo_generate_podcast_streaming req env d) =
         startup req
         @ filter is_flush (fst (drain_loop (stream env) (started d)
                                  (initial_drain_state (clock_start env))))
         @ rest"
proof -
  let ?s0 = "initial_drain_state (clock_start env)"
  obtain out d1 s e where lp: "drain_loop (stream env) (started d) ?s0 = (out, d1, s, e)"
    by (cases "drain_loop (stream env) (started d) ?s0") auto
  have ns: "\<not> stop_generation (started d)" by (simp add: started_def)
  from drain_loop_facts[OF ns lp] obtain fs where
    fs: "\<forall>x\<in>set fs. is_flush x" "out = fs @ (if e = Broken then [EndStreamer] else [])"
    by blast
  have ff: "filter is_flush out = fs" using fs by simp
  show ?thesis
  proof (cases "e = Raised")
    case True
    have "fst (demo_generate_podcast_streaming req env d)
        = startup req @ fs @ [Yield (Status UnexpectedError)]"
      using lp True fs(2)
      by (simp add: demo_generate_podcast_streaming_def try_body_streaming[OF reach]
          streaming_phase_def)
    then show ?thesis using lp ff by (intro exI[of _ "[Yield (Status UnexpectedError)]"]) simp
  next
    case False
    have "fst (demo_generate_podcast_streaming req env d) =
        startup req @ fs @ ((if e = Broken then [EndStreamer] else [])
          @ fst (finish (thread_alive env) (stop_at_end env) d1 s))"
      using session_trace_raw[OF reach lp False] fs(2) by simp
    then show ?thesis using lp ff
      by (intro exI[of _ "(if e = Broken then [EndStreamer] else [])
          @ fst (finish (thread_alive env) (stop_at_end env) d1 s)"])
        (simp add: finish_no_flush)
  qed
qed

lemma session_flushes_all:
  assumes reach: "reaches_streaming req env d"
  shows "filter is_flush (fst (demo_generate_podcast_streaming req env d))
     = filter is_flush (fst (drain_loop (stream env) (started d)
                               (initial_drain_state (clock_start env))))"
proof -
  from session_shape[OF reach] obtain rest where
    r: "filter is_flush rest = []"
    "fst (demo_generate_podcast_streaming req env d) =
         startup req
         @ filter is_flush (fst (drain_loop (stream env) (started d)
                                  (initial_drain_state (clock_start env))))
         @ rest" by blast
  show ?thesis unfolding r(2) by (simp add: startup_no_flush r(1))
qed


lemma no_items: "produced_chunks items = [] \<Longrightarrow> StreamError \<notin> set items \<Longrightarrow> items = []"
  by (cases items rule: produced_chunks.cases) simp_all

text \<open>Facts about the example request, environments and streams.\<close>

lemma reaches_streaming_example:
  "reaches_streaming example_request (quiet items) fresh_instance"
  by (simp add: reaches_streaming_def validate_def example_request_def quiet_def
      fresh_instance_def strip_def lit_def isspace_def)

lemma quiet_fields:
  "stream (quiet items) = items" "clock_start (quiet items) = 0"
  "\<not> thread_alive (quiet items)" "\<not> stop_at_end (quiet items)"
  by (simp_all add: quiet_def)

lemma stream_quiet: "stream (quiet items) = items"
  by (simp add: quiet_def)

lemma received_constant_stream:
  "received_chunks (map (\<lambda>i. Chunk False (f i) c) xs) = replicate (length xs) c"
  by (induction xs) simp_all

lemma received_one_second: "received_chunks (one_second_stream n) = replicate n one_second"
  by (simp add: one_second_stream_def received_constant_stream)

lemma total_one_second: "total_samples (replicate n one_second) = n * 24000"
  by (induction n) (simp_all add: total_samples_def one_second_def sample_rate_def)

lemmas eval_session = demo_generate_podcast_streaming_def streaming_phase_def quiet_fields
  drain_step_cases finish_def initial_drain_state_def Let_def poll_def started_def
  stop_audio_generation_def total_samples_def min_chunk_size_def sample_rate_def

subsection \<open>C1: the audio delivered to the caller\<close>




subsection \<open>C4: a stop request during the stream\<close>




subsection \<open>C5: the first flush\<close>

text \<open>
  C5: in every session that reaches the drain loop, whatever the times of the chunks,
  the flushes of the loop follow the start-up actions directly, so that the first
  flush is the first event the caller receives; there is no flush exactly when the
  chunks received amount to fewer than \<open>min_chunk_size\<close> = 30 * 24000 samples; and
  otherwise the first flush comes with the chunk, the \<open>k\<close>-th, with which the audio
  received first reaches \<open>min_chunk_size\<close>, and it carries the first \<open>k\<close> chunks. A
  flush is a delivery from inside the drain loop; the delivery of the remaining buffer
  after the stream has ended is the final delivery of the specification.
\<close>

theorem first_flush_at_threshold:
  assumes reach: "reaches_streaming req env d"
  shows "min_chunk_size = 30 * 24000
    \<and> prefix (startup req @ filter is_flush (fst (demo_generate_podcast_streaming req env d)))
           (fst (demo_generate_podcast_streaming req env d))
    \<and> (filter is_flush (fst (demo_generate_podcast_streaming req env d)) = [] \<longleftrightarrow>
         total_samples (received_chunks (stream env)) < min_chunk_size)
    \<and> (filter is_flush (fst (demo_generate_podcast_streaming req env d)) \<noteq> [] \<longrightarrow>
         (\<exists>k. 0 < k \<and> k \<le> length (received_chunks (stream env))
            \<and> total_samples (take (k - 1) (received_chunks (stream env))) < min_chunk_size
            \<and> min_chunk_size \<le> total_samples (take k (received_chunks (stream env)))
            \<and> hd (filter is_flush (fst (demo_generate_podcast_streaming req env d))) =
                 Yield (StreamingAudio
                   (concat (take k (received_chunks (stream env))))
                   (total_samples (take k (received_chunks (stream env)))) k)))"
proof -
  let ?s0 = "initial_drain_state (clock_start env)"
  have ns: "\<not> stop_generation (started d)" by (simp add: started_def)
  have ny: "\<not> has_yielded_audio ?s0" by (simp add: initial_drain_state_def)
  have lt: "total_samples (pending_chunks ?s0) < min_chunk_size"
    by (simp add: initial_drain_state_def total_samples_def min_chunk_size_def sample_rate_def)
  have s0: "pending_chunks ?s0 = []" "all_audio_chunks ?s0 = []" "chunk_count ?s0 = 0"
    by (simp_all add: initial_drain_state_def)
  note gen = first_flush_general[OF ns ny lt, of "stream env", unfolded s0 append_Nil
      add_0, folded session_flushes_all[OF reach]]
  from session_shape[OF reach] have
    "prefix (startup req @ filter is_flush (fst (demo_generate_podcast_streaming req env d)))
           (fst (demo_generate_podcast_streaming req env d))"
    unfolding session_flushes_all[OF reach] by (auto simp: prefix_def)
  moreover have "min_chunk_size = 30 * 24000"
    by (simp add: min_chunk_size_def sample_rate_def)
  ultimately show ?thesis using gen by blast
qed

theorem first_flush_at_threshold_witness:
  "reaches_streaming example_request (quiet (one_second_stream 40)) fresh_instance
   \<and> hd (filter is_flush (fst (demo_generate_podcast_streaming example_request
            (quiet (one_second_stream 40)) fresh_instance)))
       = Yield (StreamingAudio (concat (replicate 30 one_second)) (30 * 24000) 30)
   \<and> filter is_flush (fst (demo_generate_podcast_streaming example_request
            (quiet (one_second_stream 29)) fresh_instance)) = []"
proof -
  let ?fs = "filter is_flush (fst (demo_generate_podcast_streaming example_request
            (quiet (one_second_stream 40)) fresh_instance))"
  note t40 = first_flush_at_threshold[OF reaches_streaming_example,
      of "one_second_stream 40", unfolded stream_quiet received_one_second]
  note t29 = first_flush_at_threshold[OF reaches_streaming_example,
      of "one_second_stream 29", unfolded stream_quiet received_one_second]
  have ne: "?fs \<noteq> []"
    using t40 by (simp add: total_one_second min_chunk_size_def sample_rate_def)
  with t40 obtain k where k: "0 < k" "k \<le> 40"
    "total_samples (take (k - 1) (replicate 40 one_second)) < min_chunk_size"
    "min_chunk_size \<le> total_samples (take k (replicate 40 one_second))"
    "hd ?fs = Yield (StreamingAudio (concat (take k (replicate 40 one_second)))
                   (total_samples (take k (replicate 40 one_second))) k)"
    by auto
  have "k = 30"
    using k(1-4) by (simp add: total_one_second min_chunk_size_def sample_rate_def min_def
        split: if_splits)
  then have "hd ?fs = Yield (StreamingAudio (concat (replicate 30 one_second)) (30 * 24000) 30)"
    using k(5) by (simp add: total_one_second)
  moreover have "filter is_flush (fst (demo_generate_podcast_streaming example_request
            (quiet (one_second_stream 29)) fresh_instance)) = []"
    using t29 by (simp add: total_one_second min_chunk_size_def sample_rate_def)
  ultimately show ?thesis using reaches_streaming_example by simp
qed

subsection \<open>C7: a stream without chunks\<close>

text \<open>
  C7: a session that reaches the drain loop, whose stream ends without a chunk and
  without an exception, and that sees no stop request, yields exactly one event, the
  error that no audio chunks were received, and delivers no audio.
\<close>

theorem no_chunks_no_success:
  assumes reach: "reaches_streaming req env d"
    and none: "produced_chunks (stream env) = []"
    and noerr: "StreamError \<notin> set (stream env)"
    and nostop: "\<not> stop_at_end env"
  shows "yields (fst (demo_generate_podcast_streaming req env d)) = [Status NoChunksReceived]
    \<and> streamed_audio (fst (demo_generate_podcast_streaming req env d)) = []
    \<and> complete_audio (fst (demo_generate_podcast_streaming req env d)) = []"
proof -
  have e: "stream env = []" using none noerr by (rule no_items)
  have tr: "fst (demo_generate_podcast_streaming req env d) =
      startup req @ Join 5 # (if thread_alive env then [EndStreamer, Join 5] else [])
        @ [Yield (Status NoChunksReceived)]"
    using nostop
    by (simp add: demo_generate_podcast_streaming_def try_body_streaming[OF reach]
        streaming_phase_def e finish_def initial_drain_state_def Let_def poll_def started_def)
  show ?thesis unfolding tr by (simp add: startup_def)
qed

theorem no_chunks_no_success_witness:
  "reaches_streaming example_request (quiet []) fresh_instance
   \<and> produced_chunks (stream (quiet [])) = []
   \<and> StreamError \<notin> set (stream (quiet []))
   \<and> \<not> stop_at_end (quiet [])
   \<and> yields (fst (demo_generate_podcast_streaming example_request (quiet []) fresh_instance))
       = [Status NoChunksReceived]"
  using no_chunks_no_success[of example_request "quiet []" fresh_instance]
    reaches_streaming_example[of "[]"]
  by (simp add: quiet_def)

subsection \<open>The generator of the manager\<close>

lemma select_best_gpu_queues:
  "select_best_gpu probe m = (r, m1) \<Longrightarrow> gpu_queues m1 = gpu_queues m"
  using select_best_gpu_state[of probe m] by (auto simp: check_gpu_health_def)

lemma put_then_get:
  "modify g (\<lambda>n. if n = 0 then 0 else n - 1) (modify g Suc (q :: (int \<times> nat) list)) = q"
  by (induction q) (auto simp: modify_def)

lemma queues_put_get:
  "gpu_queues (queue_get_nowait g (handle_gpu_error g (queue_put g m))) = gpu_queues m"
  "gpu_queues (queue_get_nowait g
      (handle_gpu_error g (queue_put g m\<lparr>gpu_instances := is\<rparr>))) = gpu_queues m"
  "gpu_queues (queue_get_nowait g (queue_put g m\<lparr>gpu_instances := is\<rparr>)) = gpu_queues m"
  by (simp_all add: queue_get_nowait_def queue_put_def handle_gpu_error_def put_then_get)

lemma gpu_instances_queue_put: "gpu_instances (queue_put g m) = gpu_instances m"
  by (simp add: queue_put_def)

lemma no_queue_op_session: "filter is_queue_op (map Session out) = []"
  by (induction out) simp_all

lemma device_fields:
  "gpu_id (device g used a) = g" "is_available (device g used a) = a"
  by (simp_all add: device_def)

lemma select_two_devices:
  "select_best_gpu healthy (manager_of [device 0 10 True, device 1 4 True])
     = (Inr 1, manager_of [device 0 10 True, device 1 4 True])"
  by (simp add: select_best_gpu_def available_gpus_def manager_of_def device_scores
      device_fields)

lemma empty_session:
  "demo_generate_podcast_streaming example_request (quiet []) fresh_instance
     = (startup example_request @ [Join 5, Yield (Status NoChunksReceived)],
        fresh_instance)"
  by (simp add: try_body_streaming[OF reaches_streaming_example] eval_session)
    (simp add: fresh_instance_def)




subsection \<open>C2: the queue of the serving device\<close>

text \<open>
  C2: whatever the session does (\<open>inner\<close> is arbitrary: it may end normally, after a
  stop request, with a validation error, or raise), the queues of the devices are after
  the call as they were before it; and the generator either performs no queue operation
  at all, when no device could be selected or the selected device has no lock or no
  queue, or it begins by selecting a device \<open>g\<close>, performs exactly one \<^verbatim>\<open>put\<close> and
  one \<^verbatim>\<open>get_nowait\<close> on the queue of \<open>g\<close>, in this order, and ends with the
  \<^verbatim>\<open>get_nowait\<close>.
\<close>

theorem queue_counter_restored:
  "gpu_queues (fst (snd (manager_generate_podcast_streaming probe inner m))) = gpu_queues m
   \<and> (filter is_queue_op (fst (manager_generate_podcast_streaming probe inner m)) = []
       \<or> (\<exists>g. g \<in> fst ` set (gpu_queues m)
             \<and> hd (fst (manager_generate_podcast_streaming probe inner m)) = Select g
             \<and> filter is_queue_op (fst (manager_generate_podcast_streaming probe inner m))
                 = [QueuePut g, QueueGet g]
             \<and> last (fst (manager_generate_podcast_streaming probe inner m)) = QueueGet g))"
proof -
  obtain r m1 where sel: "select_best_gpu probe m = (r, m1)"
    by (cases "select_best_gpu probe m")
  note q1 = select_best_gpu_queues[OF sel]
  show ?thesis
  proof (cases r)
    case (Inl e)
    then show ?thesis using sel q1 by (simp add: manager_generate_podcast_streaming_def)
  next
    case (Inr g)
    show ?thesis
    proof (cases "g \<notin> set (gpu_locks m1) \<or> g \<notin> fst ` set (gpu_queues m1)")
      case True
      then show ?thesis using sel Inr q1
        by (simp add: manager_generate_podcast_streaming_def handle_gpu_error_def)
    next
      case False
      then have gq: "g \<in> fst ` set (gpu_queues m)" using q1 by simp
      show ?thesis
      proof (cases "map_of (gpu_instances m1) g")
        case None
        then show ?thesis using sel Inr False q1 gq
          by (auto simp: manager_generate_podcast_streaming_def queues_put_get Let_def
              gpu_instances_queue_put)
      next
        case (Some dm)
        obtain out d' raised where i: "inner dm = (out, d', raised)" by (cases "inner dm")
        show ?thesis
          using sel Inr False q1 gq Some i
          by (cases raised)
            (auto simp: manager_generate_podcast_streaming_def queues_put_get Let_def
              no_queue_op_session gpu_instances_queue_put)
      qed
    qed
  qed
qed

theorem queue_counter_restored_witness:
  "gpu_queues (fst (snd (generate healthy example_request (quiet [])
       (manager_of [device 0 10 True, device 1 4 True])))) = [(0, 0), (1, 0)]
   \<and> fst (generate healthy example_request (quiet [])
       (manager_of [device 0 10 True, device 1 4 True]))
     = [Select 1, QueuePut 1]
       @ map Session (startup example_request @ [Join 5, Yield (Status NoChunksReceived)])
       @ [QueueGet 1]"
  using queue_counter_restored[of healthy
      "\<lambda>d. case demo_generate_podcast_streaming example_request (quiet []) d of
             (out, d') \<Rightarrow> (out, d', None)"
      "manager_of [device 0 10 True, device 1 4 True]"]
  by (simp add: generate_def manager_generate_podcast_streaming_def select_two_devices
      empty_session queue_put_def)
    (simp add: manager_of_def device_fields empty_session modify_def)

subsection \<open>C6: a request that violates validation\<close>




end
